theory Spec2Isabelle
  imports Main "HOL-Library.Word" "HOL-Library.Monad_Syntax"
begin

unbundle bit_operations_syntax

section \<open>Data model\<close>

text \<open>
  A Go \<open>byte\<close> (\<open>uint8\<close>) is an 8-bit word: subtraction and addition wrap around.
  A Go \<open>string\<close> is a sequence of bytes; \<open>len\<close> counts bytes and \<open>header[i]\<close> reads
  one byte, so it is a \<open>string\<close> (list of 8-bit characters) here and \<open>of_char\<close>
  reads a character as its byte value.
  The arrays \<open>[16]byte\<close> and \<open>[8]byte\<close> are byte lists; the Go type fixes their
  length, which the theorems state as a hypothesis on the arguments of the
  encoder. A run-time panic (index or slice bound out of range) is the value \<open>None\<close>.
\<close>

type_synonym u8 = "8 word"

text \<open>The error values of the package are built by \<open>fmt.Errorf\<close> from a message.\<close>

datatype error = Errorf string

text \<open>
  The five results of \<open>DecodeTraceparent\<close>, in the order of its signature:
  \<open>(ver, tid, pid, flg, err)\<close>; \<open>err = None\<close> is Go's \<open>nil\<close>.
\<close>

type_synonym decoded = "u8 \<times> u8 list \<times> u8 list \<times> u8 \<times> error option"

section \<open>Indexing with bounds checks\<close>

text \<open>\<open>s[i]\<close> on a string: the byte at \<open>i\<close>, a panic when \<open>i\<close> is out of range.\<close>

definition byte_at :: "string \<Rightarrow> nat \<Rightarrow> u8 option" where
  "byte_at s i = (if i < length s then Some (of_char (s ! i)) else None)"

text \<open>\<open>s[lo:hi]\<close> on a string: a panic unless \<open>lo \<le> hi \<le> len(s)\<close>.\<close>

definition slice :: "string \<Rightarrow> nat \<Rightarrow> nat \<Rightarrow> string option" where
  "slice s lo hi = (if lo \<le> hi \<and> hi \<le> length s then Some (take (hi - lo) (drop lo s)) else None)"

section \<open>EncodeTraceparent (core.go, lines 86 to 94)\<close>

text \<open>The digit table of Go's \<open>encoding/hex\<close>.\<close>

definition hextable :: string where
  "hextable = ''0123456789abcdef''"

text \<open>
  \<open>hex.Encode(dst, src)\<close> of the Go standard library, with \<open>dst\<close> the slice
  \<open>buf[lo:hi]\<close> of the buffer \<open>buf\<close>:
  \<^verbatim>\<open>
  j := 0
  for _, v := range src {
      dst[j] = hextable[v>>4]
      dst[j+1] = hextable[v&0x0f]
      j += 2
  }
  \<close>
  The writes go through to the buffer at \<open>lo + j\<close> and \<open>lo + j + 1\<close>; the index
  \<open>j + 1\<close> must be below \<open>len(dst) = hi - lo\<close>, else the call panics. The slice
  expression \<open>buf[lo:hi]\<close> is the caller's: the function is meant for \<open>hi\<close> within
  the buffer, as at its four calls below on a buffer of 55 bytes (\<open>hi\<close> is 2, 35, 52
  and 55).
\<close>

fun hex_Encode :: "string \<Rightarrow> nat \<Rightarrow> nat \<Rightarrow> nat \<Rightarrow> u8 list \<Rightarrow> string option" where
  "hex_Encode buf lo hi j [] = Some buf"
| "hex_Encode buf lo hi j (v # src) =
     (if j + 1 < hi - lo then
        hex_Encode (buf[lo + j := hextable ! unat (drop_bit 4 v),
                        lo + j + 1 := hextable ! unat (v AND 0x0f)]) lo hi (j + 2) src
      else None)"

definition EncodeTraceparent :: "u8 \<Rightarrow> u8 list \<Rightarrow> u8 list \<Rightarrow> u8 \<Rightarrow> string option" where
  "EncodeTraceparent ver tid pid flg =
     (let header = replicate 55 (CHR 0x00);
          header = header[2 := CHR ''-'', 35 := CHR ''-'', 52 := CHR ''-'']
      in do {
        header \<leftarrow> hex_Encode header 0 2 0 [ver];
        header \<leftarrow> hex_Encode header 3 35 0 tid;
        header \<leftarrow> hex_Encode header 36 52 0 pid;
        header \<leftarrow> hex_Encode header 53 55 0 [flg];
        Some header
      })"

section \<open>DecodeTraceparent (core.go, lines 98 to 185)\<close>

text \<open>
  The nibble test that the source writes out four times (lines 138, 145, 163, 170):
  \<^verbatim>\<open>
  if d = c - '0'; d > 9 {
      if d = c - 'W'; d > 15 || d < 10 {
          err = ...; return
      }
  }
  \<close>
  in \<open>uint8\<close> arithmetic; \<open>None\<close> is the branch that returns the error, \<open>Some d\<close> the
  value of \<open>d\<close> with which the loop body goes on.
\<close>

definition hex_nibble :: "u8 \<Rightarrow> u8 option" where
  "hex_nibble c =
     (let d = c - of_char (CHR ''0'') in
      if d > 9 then
        (let d = c - of_char (CHR ''W'') in
         if d > 15 \<or> d < 10 then None else Some d)
      else Some d)"

text \<open>
  The two decoding loops (lines 136 to 153 for the trace id, 161 to 178 for the
  parent id) are the same text up to the offset of the field (\<open>3\<close> and \<open>4\<close>, or
  \<open>36\<close> and \<open>37\<close>), the number of bytes (\<open>16\<close> or \<open>8\<close>) and the error:
  \<^verbatim>\<open>
  for i := 0; i < n; i++ {
      c = header[base+(i<<1)]
      ... nibble test giving d1 ...
      c = header[base+1+(i<<1)]
      ... nibble test giving d2 ...
      id[i] = (d1 << 4) + d2
      val += int(id[i])
  }
  \<close>
  The loop returns the array and the sum as they are when it ends, and the error
  when a nibble test fails: the function has named results and returns them as
  they stand. \<open>val\<close> is a Go \<open>int\<close> (at least 32 bits); the sum of at most 16 bytes
  cannot overflow it, so it is an unbounded integer here. The store \<open>id[i]\<close> goes to
  an array of \<open>n\<close> elements: the model checks \<open>i\<close> against the length of the list.
\<close>

function id_loop ::
  "string \<Rightarrow> nat \<Rightarrow> nat \<Rightarrow> error \<Rightarrow> nat \<Rightarrow> u8 list \<Rightarrow> int \<Rightarrow> (u8 list \<times> int \<times> error option) option" where
  "id_loop header base n e i ident val =
     (if i < n then
        (case byte_at header (base + push_bit 1 i) of
           None \<Rightarrow> None
         | Some c \<Rightarrow>
            (case hex_nibble c of
               None \<Rightarrow> Some (ident, val, Some e)
             | Some d1 \<Rightarrow>
                (case byte_at header (base + 1 + push_bit 1 i) of
                   None \<Rightarrow> None
                 | Some c \<Rightarrow>
                    (case hex_nibble c of
                       None \<Rightarrow> Some (ident, val, Some e)
                     | Some d2 \<Rightarrow>
                        (if i < length ident then
                           (let ident = ident[i := push_bit 4 d1 + d2]
                            in id_loop header base n e (i + 1) ident (val + uint (ident ! i)))
                         else None)))))
      else Some (ident, val, None))"
  by pat_completeness auto
termination
  by (relation "measure (\<lambda>(header, base, n, e, i, ident, val). n - i)") auto

text \<open>
  The named results \<open>ver\<close>, \<open>tid\<close>, \<open>pid\<close> and \<open>flg\<close> start as zero values and
  every \<open>return\<close> of the function is a bare one: it returns them as they stand, with
  the error. The three bytes of line 109 are read before they are compared (the source
  stops at the first that is no dash); after the length test no order of reading them can
  panic.
\<close>

definition DecodeTraceparent :: "string \<Rightarrow> decoded option" where
  "DecodeTraceparent header =
     (let ver = 0; tid = replicate 16 0; pid = replicate 8 0; flg = 0 in
      if length header \<noteq> 55 then
        Some (ver, tid, pid, flg, Some (Errorf ''invalid length''))
      else do {
        h2 \<leftarrow> byte_at header 2;
        h35 \<leftarrow> byte_at header 35;
        h52 \<leftarrow> byte_at header 52;
        if h2 \<noteq> of_char (CHR ''-'') \<or> h35 \<noteq> of_char (CHR ''-'') \<or> h52 \<noteq> of_char (CHR ''-'') then
          Some (ver, tid, pid, flg, Some (Errorf ''invalid format''))
        else do {
          v \<leftarrow> slice header 0 2;
          if v \<noteq> ''00'' then
            Some (ver, tid, pid, flg, Some (Errorf ''invalid version''))
          else do {
            let ver = 0;
            f \<leftarrow> slice header 53 (length header);
            if f \<noteq> ''00'' \<and> f \<noteq> ''01'' then
              Some (ver, tid, pid, flg, Some (Errorf ''invalid flag''))
            else do {
              let flg = (if f = ''00'' then 0 else 1);
              (tid, val, err) \<leftarrow> id_loop header 3 16 (Errorf ''invalid trace id'') 0 tid 0;
              if err \<noteq> None then Some (ver, tid, pid, flg, err)
              else if val = 0 then
                Some (ver, tid, pid, flg, Some (Errorf ''invalid trace id''))
              else do {
                (pid, val, err) \<leftarrow> id_loop header 36 8 (Errorf ''invalid parent id'') 0 pid 0;
                if err \<noteq> None then Some (ver, tid, pid, flg, err)
                else if val = 0 then
                  Some (ver, tid, pid, flg, Some (Errorf ''invalid parent id''))
                else Some (ver, tid, pid, flg, None)
              }
            }
          }
        }
      })"

section \<open>Auxiliary definitions\<close>

text \<open>The two characters that \<open>hex.Encode\<close> writes for one byte, and for a byte list.\<close>

definition hex_pair :: "u8 \<Rightarrow> string" where
  "hex_pair v = [hextable ! unat (drop_bit 4 v), hextable ! unat (v AND 0x0f)]"

definition hexs :: "u8 list \<Rightarrow> string" where
  "hexs bs = concat (map hex_pair bs)"

text \<open>The text of a field: the \<open>2 * length bs\<close> characters from \<open>base\<close> on are the digits of \<open>bs\<close>.\<close>

definition field_holds :: "string \<Rightarrow> nat \<Rightarrow> u8 list \<Rightarrow> bool" where
  "field_holds h base bs \<longleftrightarrow>
     base + 2 * length bs \<le> length h \<and> take (2 * length bs) (drop base h) = hexs bs"

text \<open>What a run of the loop from index \<open>i\<close> returns, as a predicate on its result.\<close>

definition loop_post ::
  "string \<Rightarrow> nat \<Rightarrow> nat \<Rightarrow> error \<Rightarrow> nat \<Rightarrow> u8 list \<Rightarrow> int \<Rightarrow> u8 list \<times> int \<times> error option \<Rightarrow> bool" where
  "loop_post h base n e i ident val res \<longleftrightarrow>
     (case res of (bs, v, r) \<Rightarrow>
        length bs = n \<and> take i bs = take i ident \<and>
        (case r of
           None \<Rightarrow>
             v = val + sum_list (map uint (drop i bs)) \<and>
             (\<forall>j. i \<le> j \<and> j < n \<longrightarrow>
                h ! (base + 2 * j) = hextable ! unat (drop_bit 4 (bs ! j)) \<and>
                h ! (base + 2 * j + 1) = hextable ! unat (bs ! j AND 0x0f))
         | Some e' \<Rightarrow>
             e' = e \<and>
             (\<exists>k. base + 2 * i \<le> k \<and> k < base + 2 * n \<and> hex_nibble (of_char (h ! k)) = None)))"

text \<open>The flag byte that lines 124 to 128 assign for an accepted flag text.\<close>

definition flag_of :: "string \<Rightarrow> u8" where
  "flag_of h = (if drop 53 h = ''00'' then 0 else 1)"

text \<open>What the function does once the four framing tests have passed (lines 134 to 184).\<close>

definition decode_ids :: "string \<Rightarrow> decoded option" where
  "decode_ids h =
     (case id_loop h 3 16 (Errorf ''invalid trace id'') 0 (replicate 16 0) 0 of
        None \<Rightarrow> None
      | Some (tid, val, err) \<Rightarrow>
          if err \<noteq> None then Some (0, tid, replicate 8 0, flag_of h, err)
          else if val = 0 then Some (0, tid, replicate 8 0, flag_of h, Some (Errorf ''invalid trace id''))
          else
            (case id_loop h 36 8 (Errorf ''invalid parent id'') 0 (replicate 8 0) 0 of
               None \<Rightarrow> None
             | Some (pid, val, err) \<Rightarrow>
                 if err \<noteq> None then Some (0, tid, pid, flag_of h, err)
                 else if val = 0 then Some (0, tid, pid, flag_of h, Some (Errorf ''invalid parent id''))
                 else Some (0, tid, pid, flag_of h, None)))"

text \<open>
  Lower-case hexadecimal as the specification words it, for comparison with the table
  of the source: the digit of a value below 10 is that far after \<open>0\<close>, the digit of
  a value from 10 to 15 that far after \<open>a\<close>; a byte is written as two digits, the
  high half first; a byte list as the digits of its bytes in order.
\<close>

definition spec_hex_digit :: "nat \<Rightarrow> char" where
  "spec_hex_digit k =
     (if k < 10 then char_of (of_char (CHR ''0'') + k)
      else char_of (of_char (CHR ''a'') + (k - 10)))"

definition spec_hex_byte :: "u8 \<Rightarrow> string" where
  "spec_hex_byte b = [spec_hex_digit (unat b div 16), spec_hex_digit (unat b mod 16)]"

definition spec_hex :: "u8 list \<Rightarrow> string" where
  "spec_hex bs = concat (map spec_hex_byte bs)"

text \<open>The canonical lower-case hexadecimal alphabet, as the specification names it.\<close>

definition lower_hex_alphabet :: string where
  "lower_hex_alphabet = ''0123456789abcdef''"

text \<open>
  What an id holds when its loop or its zero test has failed: the bytes of the pairs
  before the first pair \<open>j\<close> with a character that is no digit, then zeros; \<open>j = n\<close>
  when every pair was decoded and the id is all zero.
\<close>

definition decoded_prefix :: "string \<Rightarrow> nat \<Rightarrow> nat \<Rightarrow> u8 list \<Rightarrow> bool" where
  "decoded_prefix h base n ident \<longleftrightarrow>
     (\<exists>j\<le>n. take (2 * j) (drop base h) = spec_hex (take j ident) \<and>
            drop j ident = replicate (n - j) 0 \<and>
            (j < n \<longrightarrow> h ! (base + 2 * j) \<notin> set lower_hex_alphabet \<or>
                        h ! (base + 2 * j + 1) \<notin> set lower_hex_alphabet) \<and>
            (j = n \<longrightarrow> ident = replicate n 0))"

section \<open>Lemmas\<close>

lemma hex_nibble_char: "hex_nibble c = (if 48 \<le> c \<and> c \<le> 57 then Some (c - 48) else if 97 \<le> c \<and> c \<le> 102 then Some (c - 87) else None)"
  unfolding hex_nibble_def Let_def
  apply simp
  apply unat_arith
  apply simp
  apply arith
  done

lemma nat_lt_16_cases:
  "(nb::nat) < 16 \<Longrightarrow> nb = 0 \<or> nb = 1 \<or> nb = 2 \<or> nb = 3 \<or> nb = 4 \<or> nb = 5 \<or> nb = 6 \<or> nb = 7 \<or>
     nb = 8 \<or> nb = 9 \<or> nb = 10 \<or> nb = 11 \<or> nb = 12 \<or> nb = 13 \<or> nb = 14 \<or> nb = 15"
  by arith

lemma u8_lt_16_cases:
  assumes "d < (16::u8)"
  shows "d = 0 \<or> d = 1 \<or> d = 2 \<or> d = 3 \<or> d = 4 \<or> d = 5 \<or> d = 6 \<or> d = 7 \<or>
     d = 8 \<or> d = 9 \<or> d = 10 \<or> d = 11 \<or> d = 12 \<or> d = 13 \<or> d = 14 \<or> d = 15"
proof -
  have "unat d < 16" using assms by (simp add: word_less_nat_alt)
  then have c: "unat d = 0 \<or> unat d = 1 \<or> unat d = 2 \<or> unat d = 3 \<or> unat d = 4 \<or> unat d = 5 \<or> unat d = 6 \<or> unat d = 7 \<or>
     unat d = 8 \<or> unat d = 9 \<or> unat d = 10 \<or> unat d = 11 \<or> unat d = 12 \<or> unat d = 13 \<or> unat d = 14 \<or> unat d = 15"
    by (rule nat_lt_16_cases)
  have *: "\<And>k. unat d = k \<Longrightarrow> d = of_nat k" by auto
  from c show ?thesis
    by (elim disjE) (drule *, simp)+
qed

lemma hex_nibble_hextable: 
  assumes "d < (16::u8)"
  shows "hex_nibble (of_char (hextable ! unat d)) = Some d"
  using u8_lt_16_cases [OF assms]
  by (elim disjE) (simp_all add: hex_nibble_char hextable_def)

lemma unat_of_char: "unat (of_char c :: u8) = of_char c"
proof -
  have "(of_char c :: u8) = of_nat (of_char c)" by (simp add: of_nat_of_char)
  then have "unat (of_char c :: u8) = (of_char c :: nat) mod 256"
    by (simp add: unat_of_nat)
  then show ?thesis by simp
qed

lemma char_of_unat_of_char: "char_of (unat (of_char c :: u8)) = c"
  by (simp add: unat_of_char)

lemma digit_letter_disjoint: "w \<le> 57 \<Longrightarrow> 97 \<le> w \<Longrightarrow> False" for w :: u8
  by unat_arith

lemma hex_nibble_Some:
  "hex_nibble w = Some d \<longleftrightarrow>
     (48 \<le> w \<and> w \<le> 57 \<and> d = w - 48) \<or> (97 \<le> w \<and> w \<le> 102 \<and> d = w - 87)"
  unfolding hex_nibble_char by (auto dest: digit_letter_disjoint)

lemma digit_sub: "48 \<le> w \<Longrightarrow> w \<le> 57 \<Longrightarrow> w - 48 \<le> (9::u8)"
  by unat_arith

lemma letter_sub: "97 \<le> w \<Longrightarrow> w \<le> 102 \<Longrightarrow> 10 \<le> w - 87 \<and> w - 87 \<le> (15::u8)"
  by unat_arith

lemma hex_nibble_range:
  assumes "hex_nibble w = Some d"
  shows "(d \<le> 9 \<and> w = d + 48) \<or> (10 \<le> d \<and> d \<le> 15 \<and> w = d + 87)"
  using assms digit_sub [of w] letter_sub [of w] unfolding hex_nibble_Some by auto

lemma hex_nibble_lt_16: "hex_nibble w = Some d \<Longrightarrow> d < 16"
  by (drule hex_nibble_range) unat_arith

lemma hex_nibble_inv:
  assumes "hex_nibble (of_char c) = Some d"
  shows "hextable ! unat d = c"
proof -
  have d: "d < 16" using assms by (rule hex_nibble_lt_16)
  have w: "(d \<le> 9 \<and> of_char c = d + 48) \<or> (10 \<le> d \<and> d \<le> 15 \<and> of_char c = d + 87)"
    using assms by (rule hex_nibble_range)
  have "char_of (unat (of_char c :: u8)) = hextable ! unat d"
    using u8_lt_16_cases [OF d] w
    by (elim disjE) (simp_all add: hextable_def char_of_eq_iff word_le_nat_alt)
  then show ?thesis by (simp only: char_of_unat_of_char)
qed

lemma length_hexs [simp]: "length (hexs bs) = 2 * length bs"
  by (induction bs) (simp_all add: hexs_def hex_pair_def)

lemma hexs_Nil [simp]: "hexs [] = []"
  by (simp add: hexs_def)

lemma hexs_Cons: "hexs (b # bs) = hex_pair b @ hexs bs"
  by (simp add: hexs_def)

lemma length_hex_pair [simp]: "length (hex_pair b) = 2"
  by (simp add: hex_pair_def)

lemma update_two:
  assumes "k + 1 < length buf"
  shows "buf[k := a, k + 1 := b] = take k buf @ [a, b] @ drop (k + 2) buf"
proof -
  have "buf = take k buf @ buf ! k # buf ! (k + 1) # drop (k + 2) buf"
    using assms by (simp add: Cons_nth_drop_Suc)
  then obtain x y where "buf = take k buf @ x # y # drop (k + 2) buf" by blast
  then have e: "buf[k := a, k + 1 := b] = (take k buf @ x # y # drop (k + 2) buf)[k := a, k + 1 := b]"
    by simp
  have l: "length (take k buf) = k" using assms by simp
  show ?thesis
    unfolding e using l by (simp add: list_update_append)
qed

lemma hex_Encode_closed:
  assumes "hi \<le> length buf" "lo + j + 2 * length src \<le> hi"
  shows "hex_Encode buf lo hi j src =
           Some (take (lo + j) buf @ hexs src @ drop (lo + j + 2 * length src) buf)"
  using assms
proof (induction src arbitrary: buf j)
  case Nil
  then show ?case by simp
next
  case (Cons v src)
  let ?buf = "buf[lo + j := hextable ! unat (drop_bit 4 v), lo + j + 1 := hextable ! unat (v AND 0x0f)]"
  have k: "lo + j + 1 < length buf" using Cons.prems by simp
  have b: "?buf = take (lo + j) buf @ hex_pair v @ drop (lo + j + 2) buf"
    using update_two [OF k] by (simp add: hex_pair_def)
  have lb: "length ?buf = length buf" by simp
  have g: "j + 1 < hi - lo" using Cons.prems by simp
  have ih: "hex_Encode ?buf lo hi (j + 2) src =
      Some (take (lo + (j + 2)) ?buf @ hexs src @ drop (lo + (j + 2) + 2 * length src) ?buf)"
    using Cons.prems by (intro Cons.IH) (simp_all only: lb, simp_all)
  have t: "take (lo + (j + 2)) ?buf = take (lo + j) buf @ hex_pair v"
    using k by (simp only: b) simp
  have d: "drop (lo + (j + 2) + 2 * length src) ?buf = drop (lo + j + 2 * length (v # src)) buf"
    using k by (simp add: drop_update_cancel)
  show ?case
    using g by (simp only: hex_Encode.simps if_True ih t d) (simp add: hexs_Cons)
qed

lemma initial_buffer:
  "(replicate 55 (CHR 0x00))[2 := CHR ''-'', 35 := CHR ''-'', 52 := CHR ''-''] =
     replicate 2 (CHR 0x00) @ ''-'' @ replicate 32 (CHR 0x00) @ ''-'' @
     replicate 16 (CHR 0x00) @ ''-'' @ replicate 2 (CHR 0x00)"
  by code_simp

lemma hexs_single: "hexs [b] = hex_pair b"
  by (simp add: hexs_def)

lemma EncodeTraceparent_closed:
  assumes "length tid = 16" "length pid = 8"
  shows "EncodeTraceparent ver tid pid flg =
           Some (hex_pair ver @ ''-'' @ hexs tid @ ''-'' @ hexs pid @ ''-'' @ hex_pair flg)"
  unfolding EncodeTraceparent_def Let_def initial_buffer
  using assms
  by (simp add: hex_Encode_closed hexs_single del: hex_Encode.simps)

declare id_loop.simps [simp del]

lemma unat_hi: "unat (drop_bit 4 (b::u8)) = unat b div 16"
  by (simp add: drop_bit_eq_div unat_div)

lemma and15: "(b::u8) AND 0x0f = take_bit 4 b"
proof -
  have "(0x0f :: u8) = mask 4" by (simp add: mask_eq_exp_minus_1)
  then show ?thesis by (simp add: take_bit_eq_mask)
qed

lemma unat_lo: "unat ((b::u8) AND 0x0f) = unat b mod 16"
  by (simp add: and15 take_bit_eq_mod unat_mod)

lemma recombine: "push_bit 4 (drop_bit 4 b) + (b AND 0x0f) = (b::u8)"
  unfolding and15 by (rule bits_ident)

lemma hi_lt_16: "drop_bit 4 (b::u8) < 16"
proof -
  have "unat b < 256" using unsigned_less [of b] by simp
  then have "unat b div 16 < 16" by arith
  then show ?thesis by (simp add: word_less_nat_alt unat_hi)
qed

lemma lo_lt_16: "(b::u8) AND 0x0f < 16"
  by (simp add: word_less_nat_alt unat_lo)

lemma unat_combine:
  assumes "d1 < (16::u8)" "d2 < (16::u8)"
  shows "unat (push_bit 4 d1 + d2) = 16 * unat d1 + unat d2"
proof -
  have a: "unat d1 < 16" "unat d2 < 16" using assms by (simp_all add: word_less_nat_alt)
  have "unat (push_bit 4 d1 + d2) = (unat d1 * 16 mod 256 + unat d2) mod 256"
    by (simp add: push_bit_eq_mult unat_word_ariths)
  also have "\<dots> = 16 * unat d1 + unat d2" using a by simp
  finally show ?thesis .
qed

lemma split_combine:
  assumes "d1 < (16::u8)" "d2 < (16::u8)"
  shows "drop_bit 4 (push_bit 4 d1 + d2) = d1" "(push_bit 4 d1 + d2) AND 0x0f = d2"
proof -
  have a: "unat d1 < 16" "unat d2 < 16" using assms by (simp_all add: word_less_nat_alt)
  show "drop_bit 4 (push_bit 4 d1 + d2) = d1"
    using a by (simp add: word_unat_eq_iff unat_hi unat_combine [OF assms])
  show "(push_bit 4 d1 + d2) AND 0x0f = d2"
    using a by (simp add: word_unat_eq_iff unat_lo unat_combine [OF assms])
qed

lemma hex_nibble_hi: "hex_nibble (of_char (hextable ! unat (drop_bit 4 b))) = Some (drop_bit 4 b)"
  by (rule hex_nibble_hextable [OF hi_lt_16])

lemma hex_nibble_lo: "hex_nibble (of_char (hextable ! unat (b AND 0x0f))) = Some (b AND 0x0f)"
  by (rule hex_nibble_hextable [OF lo_lt_16])

lemma push_bit_1_nat: "push_bit 1 (i::nat) = 2 * i"
  by (simp add: push_bit_eq_mult)

lemma hexs_nth:
  "j < length bs \<Longrightarrow>
     hexs bs ! (2 * j) = hextable ! unat (drop_bit 4 (bs ! j)) \<and>
     hexs bs ! (2 * j + 1) = hextable ! unat (bs ! j AND 0x0f)"
proof (induction bs arbitrary: j)
  case Nil
  then show ?case by simp
next
  case (Cons b bs)
  show ?case
  proof (cases j)
    case 0
    then show ?thesis by (simp add: hexs_Cons hex_pair_def)
  next
    case (Suc k)
    then have "k < length bs" using Cons.prems by simp
    from Cons.IH [OF this] show ?thesis
      using Suc by (simp add: hexs_Cons nth_append)
  qed
qed

lemma field_nth:
  assumes "field_holds h base bs" "j < length bs"
  shows "base + 2 * j + 1 < length h"
    and "h ! (base + 2 * j) = hextable ! unat (drop_bit 4 (bs ! j))"
    and "h ! (base + 2 * j + 1) = hextable ! unat (bs ! j AND 0x0f)"
proof -
  show b: "base + 2 * j + 1 < length h" using assms by (simp add: field_holds_def)
  have e: "take (2 * length bs) (drop base h) = hexs bs" using assms by (simp add: field_holds_def)
  have "h ! (base + 2 * j) = take (2 * length bs) (drop base h) ! (2 * j)"
    using assms b by simp
  then show "h ! (base + 2 * j) = hextable ! unat (drop_bit 4 (bs ! j))"
    using hexs_nth [OF assms(2)] by (simp only: e)
  have "h ! (base + 2 * j + 1) = take (2 * length bs) (drop base h) ! (2 * j + 1)"
    using assms b by (simp add: add.assoc)
  then show "h ! (base + 2 * j + 1) = hextable ! unat (bs ! j AND 0x0f)"
    using hexs_nth [OF assms(2)] by (simp only: e)
qed

lemma field_holdsI:
  assumes "base + 2 * length bs \<le> length h"
    and "\<And>j. j < length bs \<Longrightarrow>
           h ! (base + 2 * j) = hextable ! unat (drop_bit 4 (bs ! j)) \<and>
           h ! (base + 2 * j + 1) = hextable ! unat (bs ! j AND 0x0f)"
  shows "field_holds h base bs"
proof -
  have "take (2 * length bs) (drop base h) = hexs bs"
  proof (rule nth_equalityI)
    show "length (take (2 * length bs) (drop base h)) = length (hexs bs)"
      using assms(1) by simp
  next
    fix p assume "p < length (take (2 * length bs) (drop base h))"
    then have p: "p < 2 * length bs" by simp
    then have j: "p div 2 < length bs" by arith
    have l: "take (2 * length bs) (drop base h) ! p = h ! (base + p)"
      using p assms(1) by simp
    show "take (2 * length bs) (drop base h) ! p = hexs bs ! p"
    proof (cases "even p")
      case True
      then have "p = 2 * (p div 2)" by simp
      then show ?thesis
        using assms(2) [OF j] hexs_nth [OF j] l by metis
    next
      case False
      then have "p = 2 * (p div 2) + 1" by simp
      then show ?thesis
        using assms(2) [OF j] hexs_nth [OF j] l by (metis add.assoc)
    qed
  qed
  then show ?thesis using assms(1) by (simp add: field_holds_def)
qed

lemma byte_at_Some: "i < length s \<Longrightarrow> byte_at s i = Some (of_char (s ! i))"
  by (simp add: byte_at_def)

lemma id_loop_done: "\<not> i < n \<Longrightarrow> id_loop h base n e i ident val = Some (ident, val, None)"
  by (subst id_loop.simps) simp

lemma id_loop_step:
  assumes "i < n" "base + 2 * i + 1 < length h"
  shows "id_loop h base n e i ident val =
     (case hex_nibble (of_char (h ! (base + 2 * i))) of
        None \<Rightarrow> Some (ident, val, Some e)
      | Some d1 \<Rightarrow>
         (case hex_nibble (of_char (h ! (base + 2 * i + 1))) of
            None \<Rightarrow> Some (ident, val, Some e)
          | Some d2 \<Rightarrow>
             (if i < length ident then
                id_loop h base n e (i + 1) (ident[i := push_bit 4 d1 + d2])
                  (val + uint (ident[i := push_bit 4 d1 + d2] ! i))
              else None)))"
proof -
  have a: "byte_at h (base + push_bit 1 i) = Some (of_char (h ! (base + 2 * i)))"
    using assms by (simp only: push_bit_1_nat) (simp add: byte_at_Some)
  have c: "base + 1 + 2 * i = base + 2 * i + 1" by simp
  have b: "byte_at h (base + 1 + push_bit 1 i) = Some (of_char (h ! (base + 2 * i + 1)))"
    using assms by (simp only: push_bit_1_nat c) (simp add: byte_at_Some)
  show ?thesis
    using assms(1) by (subst id_loop.simps) (simp only: a b if_True option.case Let_def)
qed

lemma id_loop_accepts:
  assumes "field_holds h base bs" "length bs = n" "length ident = n" "i \<le> n"
  shows "id_loop h base n e i ident val =
           Some (take i ident @ drop i bs, val + sum_list (map uint (drop i bs)), None)"
  using assms(3,4)
proof (induction "n - i" arbitrary: i ident val)
  case 0
  then show ?case using assms(2) by (simp add: id_loop_done)
next
  case (Suc k)
  then have i: "i < n" by simp
  then have j: "i < length bs" using assms(2) by simp
  note f = field_nth [OF assms(1) j]
  let ?x = "push_bit 4 (drop_bit 4 (bs ! i)) + (bs ! i AND 0x0f)"
  have x: "?x = bs ! i" by (rule recombine)
  have "id_loop h base n e i ident val =
          id_loop h base n e (i + 1) (ident[i := bs ! i]) (val + uint (bs ! i))"
    using Suc.prems i
    by (simp only: id_loop_step [OF i f(1)] f(2,3) hex_nibble_hi hex_nibble_lo option.case x)
       simp
  also have "\<dots> = Some (take (i + 1) (ident[i := bs ! i]) @ drop (i + 1) bs,
                      val + uint (bs ! i) + sum_list (map uint (drop (i + 1) bs)), None)"
    using Suc.hyps(2) Suc.prems i by (intro Suc.hyps(1)) simp_all
  also have "take (i + 1) (ident[i := bs ! i]) = take i ident @ [bs ! i]"
    using Suc.prems i by (simp add: take_Suc_conv_app_nth)
  also have "drop i bs = bs ! i # drop (i + 1) bs"
    using j by (simp add: Cons_nth_drop_Suc)
  then have "val + uint (bs ! i) + sum_list (map uint (drop (i + 1) bs)) = val + sum_list (map uint (drop i bs))"
       and "(take i ident @ [bs ! i]) @ drop (i + 1) bs = take i ident @ drop i bs"
    by simp_all
  ultimately show ?case by simp
qed

lemma take_Suc_update_eq:
  assumes "take (Suc i) bs = take (Suc i) (ident[i := x])" "i < length ident" "length bs = length ident"
  shows "take i bs = take i ident" "bs ! i = x"
proof -
  have "take i (take (Suc i) bs) = take i (take (Suc i) (ident[i := x]))"
    using assms(1) by simp
  then show "take i bs = take i ident" by (simp add: min_def)
  have "take (Suc i) bs ! i = take (Suc i) (ident[i := x]) ! i"
    using assms(1) by simp
  then show "bs ! i = x" using assms(2,3) by simp
qed

lemma id_loop_post:
  assumes "base + 2 * n \<le> length h" "length ident = n" "i \<le> n"
  shows "\<exists>res. id_loop h base n e i ident val = Some res \<and> loop_post h base n e i ident val res"
  using assms(2,3)
proof (induction "n - i" arbitrary: i ident val)
  case 0
  then show ?case by (auto simp add: id_loop_done loop_post_def)
next
  case (Suc m)
  then have i: "i < n" by simp
  have b: "base + 2 * i + 1 < length h" using i assms(1) by simp
  note step = id_loop_step [OF i b, of e ident val]
  show ?case
  proof (cases "hex_nibble (of_char (h ! (base + 2 * i)))")
    case None
    then have "id_loop h base n e i ident val = Some (ident, val, Some e)"
      by (simp only: step option.case)
    moreover have "loop_post h base n e i ident val (ident, val, Some e)"
      using None i Suc.prems by (auto simp: loop_post_def intro!: exI [of _ "base + 2 * i"])
    ultimately show ?thesis by blast
  next
    case d1: (Some d1)
    show ?thesis
    proof (cases "hex_nibble (of_char (h ! (base + 2 * i + 1)))")
      case None
      then have "id_loop h base n e i ident val = Some (ident, val, Some e)"
        by (simp only: step d1 option.case)
      moreover have "loop_post h base n e i ident val (ident, val, Some e)"
        using None i Suc.prems by (auto simp: loop_post_def intro!: exI [of _ "base + 2 * i + 1"])
      ultimately show ?thesis by blast
    next
      case d2: (Some d2)
      let ?x = "push_bit 4 d1 + d2"
      let ?ident = "ident[i := ?x]"
      have li: "i < length ident" using i Suc.prems by simp
      have xi: "?ident ! i = ?x" using li by simp
      have r: "id_loop h base n e i ident val = id_loop h base n e (i + 1) ?ident (val + uint ?x)"
        using li by (simp only: step d1 d2 option.case xi if_True)
      have "\<exists>res. id_loop h base n e (i + 1) ?ident (val + uint ?x) = Some res \<and>
                  loop_post h base n e (i + 1) ?ident (val + uint ?x) res"
        using Suc.hyps(2) Suc.prems i by (intro Suc.hyps(1)) simp_all
      then obtain bs v r' where
        res: "id_loop h base n e (i + 1) ?ident (val + uint ?x) = Some (bs, v, r')" and
        post: "loop_post h base n e (i + 1) ?ident (val + uint ?x) (bs, v, r')"
        by (metis prod_cases3)
      have lb: "length bs = n" and tk: "take (Suc i) bs = take (Suc i) ?ident"
        using post by (simp_all add: loop_post_def)
      have lbi: "length bs = length ident" using lb Suc.prems by simp
      note tu = take_Suc_update_eq [OF tk li lbi]
      have d16: "d1 < 16" "d2 < 16"
        using d1 d2 by (auto dest: hex_nibble_lt_16)
      have c1: "h ! (base + 2 * i) = hextable ! unat (drop_bit 4 (bs ! i))"
        using hex_nibble_inv [OF d1] split_combine(1) [OF d16] tu(2) by simp
      have c2: "h ! (base + 2 * i + 1) = hextable ! unat (bs ! i AND 0x0f)"
        using hex_nibble_inv [OF d2] split_combine(2) [OF d16] tu(2) by simp
      have "drop i bs = bs ! i # drop (Suc i) bs"
        using lb i by (simp add: Cons_nth_drop_Suc)
      then have dr: "drop i bs = ?x # drop (Suc i) bs"
        by (simp only: tu(2))
      have "loop_post h base n e i ident val (bs, v, r')"
      proof (cases r')
        case None
        then have v: "v = val + uint ?x + sum_list (map uint (drop (Suc i) bs))"
          and fl: "\<forall>j. Suc i \<le> j \<and> j < n \<longrightarrow>
                h ! (base + 2 * j) = hextable ! unat (drop_bit 4 (bs ! j)) \<and>
                h ! (base + 2 * j + 1) = hextable ! unat (bs ! j AND 0x0f)"
          using post by (simp_all add: loop_post_def)
        have "\<forall>j. i \<le> j \<and> j < n \<longrightarrow>
                h ! (base + 2 * j) = hextable ! unat (drop_bit 4 (bs ! j)) \<and>
                h ! (base + 2 * j + 1) = hextable ! unat (bs ! j AND 0x0f)"
        proof (intro allI impI)
          fix j assume j: "i \<le> j \<and> j < n"
          show "h ! (base + 2 * j) = hextable ! unat (drop_bit 4 (bs ! j)) \<and>
                h ! (base + 2 * j + 1) = hextable ! unat (bs ! j AND 0x0f)"
          proof (cases "j = i")
            case True
            then show ?thesis using c1 c2 by simp
          next
            case False
            then have "Suc i \<le> j \<and> j < n" using j by simp
            then show ?thesis using fl by blast
          qed
        qed
        then show ?thesis
          using None v lb tu(1) dr by (simp add: loop_post_def)
      next
        case (Some e')
        then have e': "e' = e" and
          k: "\<exists>k. base + 2 * (i + 1) \<le> k \<and> k < base + 2 * n \<and> hex_nibble (of_char (h ! k)) = None"
          using post by (simp_all add: loop_post_def)
        from k obtain k where "base + 2 * (i + 1) \<le> k" "k < base + 2 * n"
          "hex_nibble (of_char (h ! k)) = None" by blast
        then have "\<exists>k. base + 2 * i \<le> k \<and> k < base + 2 * n \<and> hex_nibble (of_char (h ! k)) = None"
          by (intro exI [of _ k]) simp
        then show ?thesis
          using Some e' lb tu(1) by (simp add: loop_post_def)
      qed
      then show ?thesis using r res by simp
    qed
  qed
qed

lemma of_char_u8_eq_iff: "(of_char c :: u8) = of_char d \<longleftrightarrow> c = d"
proof
  assume "(of_char c :: u8) = of_char d"
  then have "unat (of_char c :: u8) = unat (of_char d :: u8)" by simp
  then have "(of_char c :: nat) = of_char d" by (simp only: unat_of_char)
  then show "c = d" by simp
qed simp

lemma decode_unfold:
  assumes "length h = 55"
  shows "DecodeTraceparent h =
     (if h ! 2 \<noteq> CHR ''-'' \<or> h ! 35 \<noteq> CHR ''-'' \<or> h ! 52 \<noteq> CHR ''-'' then
        Some (0, replicate 16 0, replicate 8 0, 0, Some (Errorf ''invalid format''))
      else if take 2 h \<noteq> ''00'' then
        Some (0, replicate 16 0, replicate 8 0, 0, Some (Errorf ''invalid version''))
      else if drop 53 h \<noteq> ''00'' \<and> drop 53 h \<noteq> ''01'' then
        Some (0, replicate 16 0, replicate 8 0, 0, Some (Errorf ''invalid flag''))
      else decode_ids h)"
proof -
  have b: "byte_at h 2 = Some (of_char (h ! 2))" "byte_at h 35 = Some (of_char (h ! 35))"
    "byte_at h 52 = Some (of_char (h ! 52))"
    using assms by (simp_all add: byte_at_Some)
  have s: "slice h 0 2 = Some (take 2 h)" "slice h 53 (length h) = Some (drop 53 h)"
    using assms by (simp_all add: slice_def)
  show ?thesis
    apply (simp only: DecodeTraceparent_def Let_def b s bind.bind_lunit of_char_u8_eq_iff)
    apply (simp add: assms decode_ids_def flag_of_def split: option.splits prod.splits)
    done
qed

lemma decode_ids_total: "length h = 55 \<Longrightarrow> decode_ids h \<noteq> None"
proof -
  assume l: "length h = 55"
  obtain r1 where r1: "id_loop h 3 16 (Errorf ''invalid trace id'') 0 (replicate 16 0) 0 = Some r1"
    using id_loop_post [where base = 3 and n = 16 and h = h and ident = "replicate 16 0"
        and i = 0 and e = "Errorf ''invalid trace id''" and val = 0] l by auto
  obtain r2 where r2: "id_loop h 36 8 (Errorf ''invalid parent id'') 0 (replicate 8 0) 0 = Some r2"
    using id_loop_post [where base = 36 and n = 8 and h = h and ident = "replicate 8 0"
        and i = 0 and e = "Errorf ''invalid parent id''" and val = 0] l by auto
  show ?thesis
    unfolding decode_ids_def r1 r2 by (simp split: prod.splits)
qed

lemma spec_hex_digit_hextable: "k < 16 \<Longrightarrow> spec_hex_digit k = hextable ! k"
  by (drule nat_lt_16_cases, elim disjE)
     (simp_all add: hextable_def spec_hex_digit_def char_of_eq_iff)

lemma hex_pair_spec: "hex_pair b = spec_hex_byte b"
proof -
  have "unat b div 16 < 16" using hi_lt_16 [of b] by (simp add: word_less_nat_alt unat_hi)
  moreover have "unat b mod 16 < 16" by simp
  ultimately show ?thesis
    by (simp add: hex_pair_def spec_hex_byte_def unat_hi unat_lo spec_hex_digit_hextable)
qed

lemma hexs_spec: "hexs bs = spec_hex bs"
proof -
  have "hex_pair = spec_hex_byte" by (rule ext) (rule hex_pair_spec)
  then show ?thesis by (simp add: hexs_def spec_hex_def)
qed

lemma sum_uint_nonneg: "0 \<le> sum_list (map uint (bs :: u8 list))"
  by (induction bs) simp_all

lemma sum_uint_zero_iff: "sum_list (map uint (bs :: u8 list)) = 0 \<longleftrightarrow> bs = replicate (length bs) 0"
proof (induction bs)
  case Nil
  then show ?case by simp
next
  case (Cons b bs)
  have "0 \<le> uint b" by simp
  then have "uint b + sum_list (map uint bs) = 0 \<longleftrightarrow> uint b = 0 \<and> sum_list (map uint bs) = 0"
    using sum_uint_nonneg [of bs] by arith
  then show ?case using Cons.IH by (simp add: uint_0_iff)
qed

lemma field_holds_append:
  "length a = base \<Longrightarrow> field_holds (a @ hexs bs @ c) base bs"
  by (simp add: field_holds_def)

lemma id_loop_accepts_field:
  assumes "field_holds h base bs" "length bs = n"
  shows "id_loop h base n e 0 (replicate n 0) 0 = Some (bs, sum_list (map uint bs), None)"
  using id_loop_accepts [OF assms, of "replicate n 0" 0 e 0] by simp

lemma hex_pair_0: "hex_pair 0 = ''00''"
  by (simp add: hex_pair_def hextable_def)

lemma hex_pair_1: "hex_pair 1 = ''01''"
  by (simp add: hex_pair_def hextable_def)

lemma decode_closed_form:
  assumes "length tid = 16" "tid \<noteq> replicate 16 0" "length pid = 8" "pid \<noteq> replicate 8 0"
    "flg = 0 \<or> flg = 1"
  shows "DecodeTraceparent (hex_pair 0 @ ''-'' @ hexs tid @ ''-'' @ hexs pid @ ''-'' @ hex_pair flg) =
           Some (0, tid, pid, flg, None)"
proof -
  let ?h = "hex_pair 0 @ ''-'' @ hexs tid @ ''-'' @ hexs pid @ ''-'' @ hex_pair flg"
  have l: "length ?h = 55" using assms by simp
  have d: "?h ! 2 = CHR ''-''" "?h ! 35 = CHR ''-''" "?h ! 52 = CHR ''-''"
    using assms by (simp_all add: nth_append)
  have v: "take 2 ?h = ''00''" by (simp add: hex_pair_0)
  have f: "drop 53 ?h = hex_pair flg" using assms by simp
  have fo: "flag_of ?h = flg" "drop 53 ?h = ''00'' \<or> drop 53 ?h = ''01''"
    unfolding flag_of_def f using assms(5) by (auto simp add: hex_pair_0 hex_pair_1)
  have "field_holds ((hex_pair 0 @ ''-'') @ hexs tid @ (''-'' @ hexs pid @ ''-'' @ hex_pair flg)) 3 tid"
    by (rule field_holds_append) simp
  then have ft: "field_holds ?h 3 tid" by simp
  have "field_holds ((hex_pair 0 @ ''-'' @ hexs tid @ ''-'') @ hexs pid @ (''-'' @ hex_pair flg)) 36 pid"
    by (rule field_holds_append) (simp add: assms)
  then have fp: "field_holds ?h 36 pid" by simp
  note lt = id_loop_accepts_field [OF ft assms(1), of "Errorf ''invalid trace id''"]
  note lp = id_loop_accepts_field [OF fp assms(3), of "Errorf ''invalid parent id''"]
  have st: "sum_list (map uint tid) \<noteq> 0" using assms(1,2) by (simp add: sum_uint_zero_iff)
  have sp: "sum_list (map uint pid) \<noteq> 0" using assms(3,4) by (simp add: sum_uint_zero_iff)
  have "decode_ids ?h = Some (0, tid, pid, flg, None)"
    unfolding decode_ids_def lt lp fo(1) using st sp by simp
  then show ?thesis
    using d v fo(2) by (simp only: decode_unfold [OF l]) simp
qed

lemma id_loop_result:
  assumes "base + 2 * n \<le> length h"
    and "id_loop h base n e 0 (replicate n 0) 0 = Some (bs, v, r)"
  shows "loop_post h base n e 0 (replicate n 0) 0 (bs, v, r)"
  using id_loop_post [where base = base and n = n and h = h and ident = "replicate n 0"
      and i = 0 and e = e and val = 0] assms
  by auto

lemma id_loop_accepted:
  assumes "base + 2 * n \<le> length h"
    and "id_loop h base n e 0 (replicate n 0) 0 = Some (bs, v, None)"
  shows "length bs = n" "field_holds h base bs" "v = sum_list (map uint bs)"
proof -
  note p = id_loop_result [OF assms]
  show l: "length bs = n" using p by (simp add: loop_post_def)
  show "v = sum_list (map uint bs)" using p by (simp add: loop_post_def)
  show "field_holds h base bs"
  proof (rule field_holdsI)
    show "base + 2 * length bs \<le> length h" using l assms(1) by simp
  next
    fix j assume "j < length bs"
    then show "h ! (base + 2 * j) = hextable ! unat (drop_bit 4 (bs ! j)) \<and>
           h ! (base + 2 * j + 1) = hextable ! unat (bs ! j AND 0x0f)"
      using p l by (simp add: loop_post_def)
  qed
qed

lemma id_loop_rejected:
  assumes "base + 2 * n \<le> length h"
    and "id_loop h base n e 0 (replicate n 0) 0 = Some (bs, v, Some e')"
  shows "e' = e" "length bs = n"
    "\<exists>k. base \<le> k \<and> k < base + 2 * n \<and> hex_nibble (of_char (h ! k)) = None"
  using id_loop_result [OF assms] by (simp_all add: loop_post_def)

lemma header_split:
  assumes "length h = 55"
  shows "h = take 2 h @ [h ! 2] @ take 32 (drop 3 h) @ [h ! 35] @ take 16 (drop 36 h) @
             [h ! 52] @ drop 53 h"
proof -
  have a: "drop 2 h = h ! 2 # drop 3 h" "drop 35 h = h ! 35 # drop 36 h"
    "drop 52 h = h ! 52 # drop 53 h"
    using assms Cons_nth_drop_Suc [of 2 h] Cons_nth_drop_Suc [of 35 h] Cons_nth_drop_Suc [of 52 h]
    by simp_all
  have b: "drop 3 h = take 32 (drop 3 h) @ drop 35 h" "drop 36 h = take 16 (drop 36 h) @ drop 52 h"
    using append_take_drop_id [of 32 "drop 3 h"] append_take_drop_id [of 16 "drop 36 h"]
    by simp_all
  have "h = take 2 h @ drop 2 h" by simp
  also have "\<dots> = take 2 h @ h ! 2 # take 32 (drop 3 h) @ drop 35 h"
    using a(1) b(1) by simp
  also have "\<dots> = take 2 h @ h ! 2 # take 32 (drop 3 h) @ h ! 35 # take 16 (drop 36 h) @ drop 52 h"
    using a(2) b(2) by simp
  finally show ?thesis using a(3) by simp
qed

lemma decode_ids_success:
  assumes "length h = 55" "decode_ids h = Some (ver, tid, pid, flg, None)"
  shows "ver = 0" "flg = flag_of h" "length tid = 16" "length pid = 8"
    "field_holds h 3 tid" "field_holds h 36 pid"
proof -
  obtain t vt rt where t: "id_loop h 3 16 (Errorf ''invalid trace id'') 0 (replicate 16 0) 0 = Some (t, vt, rt)"
    using assms(2) unfolding decode_ids_def by (auto split: option.splits)
  have rt: "rt = None" "vt \<noteq> 0"
    using assms(2) unfolding decode_ids_def t by (auto split: if_splits option.splits)
  obtain p vp rp where p: "id_loop h 36 8 (Errorf ''invalid parent id'') 0 (replicate 8 0) 0 = Some (p, vp, rp)"
    using assms(2) rt unfolding decode_ids_def t by (auto split: option.splits)
  have rp: "rp = None" "vp \<noteq> 0"
    using assms(2) rt unfolding decode_ids_def t p by (auto split: if_splits)
  have e: "ver = 0" "flg = flag_of h" "tid = t" "pid = p"
    using assms(2) rt rp unfolding decode_ids_def t p by simp_all
  show "ver = 0" "flg = flag_of h" by (rule e)+
  have bt: "3 + 2 * 16 \<le> length h" and bp: "36 + 2 * 8 \<le> length h" using assms(1) by simp_all
  show "length tid = 16" "field_holds h 3 tid"
    using id_loop_accepted(1,2) [OF bt t [unfolded rt(1)]] e(3) by simp_all
  show "length pid = 8" "field_holds h 36 pid"
    using id_loop_accepted(1,2) [OF bp p [unfolded rp(1)]] e(4) by simp_all
qed

lemma length_hextable: "length hextable = 16"
  by (simp add: hextable_def)

lemma hex_nibble_accepts_iff: "(hex_nibble (of_char c) \<noteq> None) = (c \<in> set hextable)"
proof
  assume "hex_nibble (of_char c) \<noteq> None"
  then obtain d where d: "hex_nibble (of_char c) = Some d" by blast
  have "unat d < length hextable"
    using hex_nibble_lt_16 [OF d] by (simp add: word_less_nat_alt length_hextable)
  then have "hextable ! unat d \<in> set hextable" by (rule nth_mem)
  then show "c \<in> set hextable" by (simp only: hex_nibble_inv [OF d])
next
  assume "c \<in> set hextable"
  then show "hex_nibble (of_char c) \<noteq> None"
    by (auto simp add: hextable_def hex_nibble_char)
qed

lemma hex_nibble_arith:
  "(hex_nibble b \<noteq> None) =
     (b - of_char (CHR ''0'') \<le> 9 \<or>
      (10 \<le> b - of_char (CHR ''W'') \<and> b - of_char (CHR ''W'') \<le> 15))"
  by (auto simp add: hex_nibble_def Let_def not_less)

lemma set_hexs: "set (hexs bs) \<subseteq> set hextable"
proof (induction bs)
  case Nil
  then show ?case by simp
next
  case (Cons b bs)
  have "unat (drop_bit 4 b) < length hextable" "unat (b AND 0x0f) < length hextable"
    using hi_lt_16 [of b] lo_lt_16 [of b] by (simp_all add: word_less_nat_alt length_hextable)
  then have "set (hex_pair b) \<subseteq> set hextable"
    by (simp add: hex_pair_def)
  then show ?case using Cons.IH by (simp add: hexs_Cons)
qed

lemma field_char_in_table:
  assumes "field_holds h base bs" "k < 2 * length bs"
  shows "h ! (base + k) \<in> set hextable"
proof -
  have e: "take (2 * length bs) (drop base h) = hexs bs" and b: "base + 2 * length bs \<le> length h"
    using assms(1) by (simp_all add: field_holds_def)
  have "h ! (base + k) = take (2 * length bs) (drop base h) ! k"
    using assms(2) b by simp
  also have "\<dots> = hexs bs ! k" by (simp only: e)
  also have "\<dots> \<in> set (hexs bs)" using assms(2) by (intro nth_mem) simp
  finally show ?thesis using set_hexs by blast
qed

lemma id_loop_bad_char:
  assumes "base + 2 * n \<le> length h" "k < 2 * n" "h ! (base + k) \<notin> set hextable"
  shows "\<exists>bs v. id_loop h base n e 0 (replicate n 0) 0 = Some (bs, v, Some e) \<and> length bs = n"
proof -
  obtain bs v r where r: "id_loop h base n e 0 (replicate n 0) 0 = Some (bs, v, r)"
    using id_loop_post [where base = base and n = n and h = h and ident = "replicate n 0"
      and i = 0 and e = e and val = 0] assms(1) by auto
  show ?thesis
  proof (cases r)
    case None
    note a = id_loop_accepted [OF assms(1) r [unfolded None]]
    have "h ! (base + k) \<in> set hextable"
      using field_char_in_table [OF a(2)] assms(2) a(1) by simp
    then show ?thesis using assms(3) by contradiction
  next
    case (Some e')
    note a = id_loop_rejected [OF assms(1) r [unfolded Some]]
    show ?thesis using r Some a(1,2) by simp
  qed
qed

lemma id_loop_all_hex:
  assumes "base + 2 * n \<le> length h" "\<forall>k<2 * n. h ! (base + k) \<in> set hextable"
  shows "\<exists>bs. id_loop h base n e 0 (replicate n 0) 0 = Some (bs, sum_list (map uint bs), None) \<and>
           length bs = n \<and> field_holds h base bs"
proof -
  obtain bs v r where r: "id_loop h base n e 0 (replicate n 0) 0 = Some (bs, v, r)"
    using id_loop_post [where base = base and n = n and h = h and ident = "replicate n 0"
      and i = 0 and e = e and val = 0] assms(1) by auto
  show ?thesis
  proof (cases r)
    case None
    note a = id_loop_accepted [OF assms(1) r [unfolded None]]
    show ?thesis using r None a by simp
  next
    case (Some e')
    from id_loop_rejected(3) [OF assms(1) r [unfolded Some]]
    obtain k where k: "base \<le> k" "k < base + 2 * n" "hex_nibble (of_char (h ! k)) = None"
      by blast
    have "k - base < 2 * n" using k by simp
    then have "h ! (base + (k - base)) \<in> set hextable" using assms(2) by blast
    then have "h ! k \<in> set hextable" using k(1) by simp
    then have "hex_nibble (of_char (h ! k)) \<noteq> None"
      by (simp only: hex_nibble_accepts_iff)
    then show ?thesis using k(3) by contradiction
  qed
qed

lemma hexs_zeros: "hexs (replicate n 0) = replicate (2 * n) (CHR ''0'')"
  by (induction n) (simp_all add: hexs_Cons hex_pair_0)

lemma decode_ids_trace_bad:
  assumes "length h = 55" "k < 32" "h ! (3 + k) \<notin> set hextable"
  shows "\<exists>tid. decode_ids h =
           Some (0, tid, replicate 8 0, flag_of h, Some (Errorf ''invalid trace id''))"
proof -
  have b: "3 + 2 * 16 \<le> length h" "k < 2 * 16" using assms(1,2) by simp_all
  from id_loop_bad_char [OF b assms(3), of "Errorf ''invalid trace id''"]
  obtain bs v where "id_loop h 3 16 (Errorf ''invalid trace id'') 0 (replicate 16 0) 0 =
      Some (bs, v, Some (Errorf ''invalid trace id''))" by blast
  then show ?thesis by (simp add: decode_ids_def)
qed

lemma decode_ids_all_hex:
  assumes "length h = 55" "\<forall>k<32. h ! (3 + k) \<in> set hextable"
  shows "\<exists>tid. id_loop h 3 16 (Errorf ''invalid trace id'') 0 (replicate 16 0) 0 =
             Some (tid, sum_list (map uint tid), None) \<and>
           length tid = 16 \<and> take 32 (drop 3 h) = hexs tid"
proof -
  have b: "3 + 2 * 16 \<le> length h" "\<forall>k<2 * 16. h ! (3 + k) \<in> set hextable"
    using assms by simp_all
  from id_loop_all_hex [OF b, of "Errorf ''invalid trace id''"]
  show ?thesis by (auto simp add: field_holds_def)
qed

lemma decode_ids_parent_all_hex:
  assumes "length h = 55" "\<forall>k<16. h ! (36 + k) \<in> set hextable"
  shows "\<exists>pid. id_loop h 36 8 (Errorf ''invalid parent id'') 0 (replicate 8 0) 0 =
             Some (pid, sum_list (map uint pid), None) \<and>
           length pid = 8 \<and> take 16 (drop 36 h) = hexs pid"
proof -
  have b: "36 + 2 * 8 \<le> length h" "\<forall>k<2 * 8. h ! (36 + k) \<in> set hextable"
    using assms by simp_all
  from id_loop_all_hex [OF b, of "Errorf ''invalid parent id''"]
  show ?thesis by (auto simp add: field_holds_def)
qed

lemma zero_text_iff:
  assumes "length bs = n"
  shows "(hexs bs = replicate (2 * n) (CHR ''0'')) = (bs = replicate n 0)"
proof
  assume "bs = replicate n 0"
  then show "hexs bs = replicate (2 * n) (CHR ''0'')" by (simp add: hexs_zeros)
next
  assume a: "hexs bs = replicate (2 * n) (CHR ''0'')"
  have f1: "field_holds (hexs bs) 0 bs" by (simp add: field_holds_def)
  have f2: "field_holds (hexs bs) 0 (replicate n 0)"
    unfolding a by (simp add: field_holds_def hexs_zeros)
  have l2: "length (replicate n (0::u8)) = n" by simp
  note r1 = id_loop_accepts_field [OF f1 assms, of "Errorf []"]
  note r2 = id_loop_accepts_field [OF f2 l2, of "Errorf []"]
  from r1 r2 show "bs = replicate n 0" by simp
qed

lemma decode_ids_parent_bad:
  assumes "length h = 55" "\<forall>k<32. h ! (3 + k) \<in> set hextable"
    "take 32 (drop 3 h) \<noteq> replicate 32 (CHR ''0'')" "k < 16" "h ! (36 + k) \<notin> set hextable"
  shows "\<exists>tid pid. decode_ids h =
           Some (0, tid, pid, flag_of h, Some (Errorf ''invalid parent id''))"
proof -
  from decode_ids_all_hex [OF assms(1,2)] obtain tid where
    t: "id_loop h 3 16 (Errorf ''invalid trace id'') 0 (replicate 16 0) 0 =
          Some (tid, sum_list (map uint tid), None)"
    and l: "length tid = 16" and x: "take 32 (drop 3 h) = hexs tid" by blast
  have "tid \<noteq> replicate 16 0"
    using zero_text_iff [OF l] assms(3) x by simp
  then have s: "sum_list (map uint tid) \<noteq> 0" using l by (simp add: sum_uint_zero_iff)
  have b: "36 + 2 * 8 \<le> length h" "k < 2 * 8" using assms(1,4) by simp_all
  from id_loop_bad_char [OF b assms(5), of "Errorf ''invalid parent id''"]
  obtain bs v where "id_loop h 36 8 (Errorf ''invalid parent id'') 0 (replicate 8 0) 0 =
      Some (bs, v, Some (Errorf ''invalid parent id''))" by blast
  then show ?thesis using s by (simp add: decode_ids_def t)
qed


lemma decode_ids_cases:
  assumes "id_loop h 3 16 (Errorf ''invalid trace id'') 0 (replicate 16 0) 0 =
             Some (tid, sum_list (map uint tid), None)"
    and "id_loop h 36 8 (Errorf ''invalid parent id'') 0 (replicate 8 0) 0 =
             Some (pid, sum_list (map uint pid), None)"
    and "length tid = 16" "length pid = 8"
  shows "decode_ids h =
     (if tid = replicate 16 0 then
        Some (0, tid, replicate 8 0, flag_of h, Some (Errorf ''invalid trace id''))
      else if pid = replicate 8 0 then
        Some (0, tid, pid, flag_of h, Some (Errorf ''invalid parent id''))
      else Some (0, tid, pid, flag_of h, None))"
proof -
  have t: "(sum_list (map uint tid) = 0) = (tid = replicate 16 0)"
    using sum_uint_zero_iff [of tid] assms(3) by simp
  have p: "(sum_list (map uint pid) = 0) = (pid = replicate 8 0)"
    using sum_uint_zero_iff [of pid] assms(4) by simp
  show ?thesis
    unfolding decode_ids_def assms(1,2) by (simp add: t p)
qed

lemma flag_of_cases: "flag_of h = 0 \<or> flag_of h = 1"
  by (simp add: flag_of_def)

lemma decode_ids_error:
  assumes "length h = 55" "decode_ids h = Some (ver, tid, pid, flg, Some e)"
  shows "ver = 0" "flg = flag_of h" "length tid = 16" "length pid = 8"
    "(e = Errorf ''invalid trace id'' \<and> pid = replicate 8 0) \<or> e = Errorf ''invalid parent id''"
proof -
  have bt: "3 + 2 * 16 \<le> length h" and bp: "36 + 2 * 8 \<le> length h" using assms(1) by simp_all
  obtain t vt rt where t: "id_loop h 3 16 (Errorf ''invalid trace id'') 0 (replicate 16 0) 0 = Some (t, vt, rt)"
    using assms(2) unfolding decode_ids_def by (auto split: option.splits)
  note pt = id_loop_result [OF bt t]
  have lt: "length t = 16" using pt by (simp add: loop_post_def)
  have et: "rt = None \<or> rt = Some (Errorf ''invalid trace id'')"
    using pt by (cases rt) (simp_all add: loop_post_def)
  have "ver = 0 \<and> flg = flag_of h \<and> length tid = 16 \<and> length pid = 8 \<and>
    ((e = Errorf ''invalid trace id'' \<and> pid = replicate 8 0) \<or> e = Errorf ''invalid parent id'')"
  proof (cases "rt = None \<and> vt \<noteq> 0")
    case False
    then show ?thesis
      using assms(2) et lt unfolding decode_ids_def t by (auto split: if_splits)
  next
    case True
    obtain p vp rp where p: "id_loop h 36 8 (Errorf ''invalid parent id'') 0 (replicate 8 0) 0 = Some (p, vp, rp)"
      using assms(2) True unfolding decode_ids_def t by (auto split: option.splits)
    note pp = id_loop_result [OF bp p]
    have lp: "length p = 8" using pp by (simp add: loop_post_def)
    have ep: "rp = None \<or> rp = Some (Errorf ''invalid parent id'')"
      using pp by (cases rp) (simp_all add: loop_post_def)
    show ?thesis
      using assms(2) True ep lt lp unfolding decode_ids_def t p by (auto split: if_splits)
  qed
  then show "ver = 0" "flg = flag_of h" "length tid = 16" "length pid = 8"
    "(e = Errorf ''invalid trace id'' \<and> pid = replicate 8 0) \<or> e = Errorf ''invalid parent id''"
    by simp_all
qed

lemma id_loop_partial:
  assumes "base + 2 * n \<le> length h" "length ident = n" "i \<le> n"
    and "id_loop h base n e i ident val = Some (bs, v, Some e')"
  shows "\<exists>j. i \<le> j \<and> j < n \<and> length bs = n \<and> take i bs = take i ident \<and>
           drop j bs = drop j ident \<and>
           (\<forall>m. i \<le> m \<and> m < j \<longrightarrow>
              h ! (base + 2 * m) = hextable ! unat (drop_bit 4 (bs ! m)) \<and>
              h ! (base + 2 * m + 1) = hextable ! unat (bs ! m AND 0x0f)) \<and>
           (hex_nibble (of_char (h ! (base + 2 * j))) = None \<or>
            hex_nibble (of_char (h ! (base + 2 * j + 1))) = None)"
  using assms(2-4)
proof (induction "n - i" arbitrary: i ident val)
  case 0
  then show ?case by (simp add: id_loop_done)
next
  case (Suc k)
  then have i: "i < n" by simp
  have b: "base + 2 * i + 1 < length h" using i assms(1) by simp
  note step = id_loop_step [OF i b, of e ident val]
  have stop: "?case" if "bs = ident"
    "hex_nibble (of_char (h ! (base + 2 * i))) = None \<or>
     hex_nibble (of_char (h ! (base + 2 * i + 1))) = None"
    using that i Suc.prems(1) by (intro exI [of _ i]) auto
  show ?case
  proof (cases "hex_nibble (of_char (h ! (base + 2 * i)))")
    case None
    then have "bs = ident" using Suc.prems(3) by (simp only: step option.case) simp
    then show ?thesis using None by (intro stop) simp_all
  next
    case d1: (Some d1)
    show ?thesis
    proof (cases "hex_nibble (of_char (h ! (base + 2 * i + 1)))")
      case None
      then have "bs = ident" using Suc.prems(3) by (simp only: step d1 option.case) simp
      then show ?thesis using None by (intro stop) simp_all
    next
      case d2: (Some d2)
      let ?x = "push_bit 4 d1 + d2"
      let ?ident = "ident[i := ?x]"
      have li: "i < length ident" using i Suc.prems by simp
      have xi: "?ident ! i = ?x" using li by simp
      have r: "id_loop h base n e (i + 1) ?ident (val + uint ?x) = Some (bs, v, Some e')"
        using li Suc.prems(3) by (simp only: step d1 d2 option.case xi if_True)
      have "\<exists>j. i + 1 \<le> j \<and> j < n \<and> length bs = n \<and> take (i + 1) bs = take (i + 1) ?ident \<and>
           drop j bs = drop j ?ident \<and>
           (\<forall>m. i + 1 \<le> m \<and> m < j \<longrightarrow>
              h ! (base + 2 * m) = hextable ! unat (drop_bit 4 (bs ! m)) \<and>
              h ! (base + 2 * m + 1) = hextable ! unat (bs ! m AND 0x0f)) \<and>
           (hex_nibble (of_char (h ! (base + 2 * j))) = None \<or>
            hex_nibble (of_char (h ! (base + 2 * j + 1))) = None)"
        using Suc.hyps(2) Suc.prems(1) i r by (intro Suc.hyps(1)) simp_all
      then obtain j where j: "i + 1 \<le> j" "j < n" and lb: "length bs = n"
        and tk: "take (Suc i) bs = take (Suc i) ?ident"
        and dr: "drop j bs = drop j ?ident"
        and fl: "\<forall>m. i + 1 \<le> m \<and> m < j \<longrightarrow>
              h ! (base + 2 * m) = hextable ! unat (drop_bit 4 (bs ! m)) \<and>
              h ! (base + 2 * m + 1) = hextable ! unat (bs ! m AND 0x0f)"
        and bad: "hex_nibble (of_char (h ! (base + 2 * j))) = None \<or>
            hex_nibble (of_char (h ! (base + 2 * j + 1))) = None"
        by auto
      have lbi: "length bs = length ident" using lb Suc.prems by simp
      note tu = take_Suc_update_eq [OF tk li lbi]
      have d16: "d1 < 16" "d2 < 16"
        using d1 d2 by (auto dest: hex_nibble_lt_16)
      have c1: "h ! (base + 2 * i) = hextable ! unat (drop_bit 4 (bs ! i))"
        using hex_nibble_inv [OF d1] split_combine(1) [OF d16] tu(2) by simp
      have c2: "h ! (base + 2 * i + 1) = hextable ! unat (bs ! i AND 0x0f)"
        using hex_nibble_inv [OF d2] split_combine(2) [OF d16] tu(2) by simp
      have dj: "drop j bs = drop j ident"
        using dr j(1) by (simp add: drop_update_cancel)
      have "\<forall>m. i \<le> m \<and> m < j \<longrightarrow>
              h ! (base + 2 * m) = hextable ! unat (drop_bit 4 (bs ! m)) \<and>
              h ! (base + 2 * m + 1) = hextable ! unat (bs ! m AND 0x0f)"
      proof (intro allI impI)
        fix m assume m: "i \<le> m \<and> m < j"
        show "h ! (base + 2 * m) = hextable ! unat (drop_bit 4 (bs ! m)) \<and>
              h ! (base + 2 * m + 1) = hextable ! unat (bs ! m AND 0x0f)"
        proof (cases "m = i")
          case True
          then show ?thesis using c1 c2 by simp
        next
          case False
          then have "i + 1 \<le> m \<and> m < j" using m by simp
          then show ?thesis using fl by blast
        qed
      qed
      then show ?thesis
        using j lb tu(1) dj bad by (intro exI [of _ j]) simp
    qed
  qed
qed

lemma id_loop_rejected_prefix:
  assumes "base + 2 * n \<le> length h"
    and "id_loop h base n e 0 (replicate n 0) 0 = Some (bs, v, Some e')"
  shows "\<exists>j<n. take (2 * j) (drop base h) = hexs (take j bs) \<and>
           drop j bs = replicate (n - j) 0 \<and>
           (h ! (base + 2 * j) \<notin> set hextable \<or> h ! (base + 2 * j + 1) \<notin> set hextable)"
proof -
  have l: "length (replicate n (0::u8)) = n" by simp
  from id_loop_partial [OF assms(1) l _ assms(2)]
  obtain j where j: "j < n" and lb: "length bs = n"
    and dr: "drop j bs = drop j (replicate n 0)"
    and fl: "\<forall>m. m < j \<longrightarrow>
              h ! (base + 2 * m) = hextable ! unat (drop_bit 4 (bs ! m)) \<and>
              h ! (base + 2 * m + 1) = hextable ! unat (bs ! m AND 0x0f)"
    and bad: "hex_nibble (of_char (h ! (base + 2 * j))) = None \<or>
            hex_nibble (of_char (h ! (base + 2 * j + 1))) = None"
    by auto
  have lt: "length (take j bs) = j" using j lb by simp
  have "field_holds h base (take j bs)"
  proof (rule field_holdsI)
    show "base + 2 * length (take j bs) \<le> length h" using lt j assms(1) by simp
  next
    fix m assume "m < length (take j bs)"
    then have "m < j" using lt by simp
    then show "h ! (base + 2 * m) = hextable ! unat (drop_bit 4 (take j bs ! m)) \<and>
           h ! (base + 2 * m + 1) = hextable ! unat (take j bs ! m AND 0x0f)"
      using fl by simp
  qed
  then have t: "take (2 * j) (drop base h) = hexs (take j bs)"
    using lt by (simp add: field_holds_def)
  have d: "drop j bs = replicate (n - j) 0" using dr by simp
  have b: "h ! (base + 2 * j) \<notin> set hextable \<or> h ! (base + 2 * j + 1) \<notin> set hextable"
    using bad hex_nibble_accepts_iff [of "h ! (base + 2 * j)"]
      hex_nibble_accepts_iff [of "h ! (base + 2 * j + 1)"] by blast
  from j t d b show ?thesis by blast
qed

lemma alphabet_hextable: "lower_hex_alphabet = hextable"
  by (simp add: lower_hex_alphabet_def hextable_def)

lemma decoded_prefix_rejected:
  assumes "base + 2 * n \<le> length h"
    and "id_loop h base n e 0 (replicate n 0) 0 = Some (bs, v, Some e')"
  shows "decoded_prefix h base n bs"
proof -
  from id_loop_rejected_prefix [OF assms] obtain j where "j < n"
    "take (2 * j) (drop base h) = hexs (take j bs)" "drop j bs = replicate (n - j) 0"
    "h ! (base + 2 * j) \<notin> set hextable \<or> h ! (base + 2 * j + 1) \<notin> set hextable"
    by blast
  then show ?thesis
    unfolding decoded_prefix_def alphabet_hextable hexs_spec [symmetric]
    by (intro exI [of _ j]) simp
qed

lemma decoded_prefix_zero:
  assumes "field_holds h base (replicate n 0)"
  shows "decoded_prefix h base n (replicate n 0)"
  using assms unfolding decoded_prefix_def hexs_spec [symmetric]
  by (intro exI [of _ n]) (simp add: field_holds_def)

lemma decode_ids_error_values:
  assumes "length h = 55" "decode_ids h = Some (ver, tid, pid, flg, Some e)"
  shows "(e = Errorf ''invalid trace id'' \<and> pid = replicate 8 0 \<and> decoded_prefix h 3 16 tid) \<or>
         (e = Errorf ''invalid parent id'' \<and> take 32 (drop 3 h) = spec_hex tid \<and>
          tid \<noteq> replicate 16 0 \<and> decoded_prefix h 36 8 pid)"
proof -
  have bt: "3 + 2 * 16 \<le> length h" and bp: "36 + 2 * 8 \<le> length h" using assms(1) by simp_all
  obtain t vt rt where t: "id_loop h 3 16 (Errorf ''invalid trace id'') 0 (replicate 16 0) 0 = Some (t, vt, rt)"
    using assms(2) unfolding decode_ids_def by (auto split: option.splits)
  show ?thesis
  proof (cases rt)
    case (Some e')
    note r = id_loop_rejected(1) [OF bt t [unfolded Some]]
    note p = decoded_prefix_rejected [OF bt t [unfolded Some]]
    show ?thesis using assms(2) r p unfolding decode_ids_def t Some by simp
  next
    case None
    note a = id_loop_accepted [OF bt t [unfolded None]]
    have z: "(vt = 0) = (t = replicate 16 0)"
      using sum_uint_zero_iff [of t] a(1,3) by simp
    show ?thesis
    proof (cases "vt = 0")
      case True
      then have tz: "t = replicate 16 0" using z by simp
      have "decoded_prefix h 3 16 t"
        using a(2) unfolding tz by (rule decoded_prefix_zero)
      then show ?thesis using assms(2) True unfolding decode_ids_def t None by simp
    next
      case False
      then have tn: "t \<noteq> replicate 16 0" using z by simp
      have tx: "take 32 (drop 3 h) = spec_hex t"
        using a(1,2) by (simp add: field_holds_def hexs_spec)
      obtain p vp rp where p: "id_loop h 36 8 (Errorf ''invalid parent id'') 0 (replicate 8 0) 0 = Some (p, vp, rp)"
        using assms(2) False unfolding decode_ids_def t None by (auto split: option.splits)
      show ?thesis
      proof (cases rp)
        case (Some e')
        note r = id_loop_rejected(1) [OF bp p [unfolded Some]]
        note q = decoded_prefix_rejected [OF bp p [unfolded Some]]
        show ?thesis
          using assms(2) False r q tn tx unfolding decode_ids_def t None p Some by simp
      next
        case rpn: None
        note b = id_loop_accepted [OF bp p [unfolded rpn]]
        have zp: "(vp = 0) = (p = replicate 8 0)"
          using sum_uint_zero_iff [of p] b(1,3) by simp
        have v0: "vp = 0"
          using assms(2) False unfolding decode_ids_def t None p rpn by (auto split: if_splits)
        then have pz: "p = replicate 8 0" using zp by simp
        have "decoded_prefix h 36 8 p"
          using b(2) unfolding pz by (rule decoded_prefix_zero)
        then show ?thesis
          using assms(2) False v0 tn tx unfolding decode_ids_def t None p rpn by simp
      qed
    qed
  qed
qed

lemma decode_ids_outcome:
  assumes "length h = 55"
  shows "\<exists>tid pid flg err. decode_ids h = Some (0, tid, pid, flg, err) \<and>
     ((err = Some (Errorf ''invalid trace id'')) =
        ((\<exists>k<32. h ! (3 + k) \<notin> set hextable) \<or>
         take 32 (drop 3 h) = replicate 32 (CHR ''0''))) \<and>
     ((err = Some (Errorf ''invalid parent id'')) =
        ((\<forall>k<32. h ! (3 + k) \<in> set hextable) \<and>
         take 32 (drop 3 h) \<noteq> replicate 32 (CHR ''0'') \<and>
         ((\<exists>k<16. h ! (36 + k) \<notin> set hextable) \<or>
          take 16 (drop 36 h) = replicate 16 (CHR ''0'')))) \<and>
     ((err = None) =
        ((\<forall>k<32. h ! (3 + k) \<in> set hextable) \<and> (\<forall>k<16. h ! (36 + k) \<in> set hextable) \<and>
         take 32 (drop 3 h) \<noteq> replicate 32 (CHR ''0'') \<and>
         take 16 (drop 36 h) \<noteq> replicate 16 (CHR ''0'')))"
proof (cases "\<forall>k<32. h ! (3 + k) \<in> set hextable")
  case False
  then obtain k where "k < 32" "h ! (3 + k) \<notin> set hextable" by blast
  from decode_ids_trace_bad [OF assms this] obtain tid where
    "decode_ids h = Some (0, tid, replicate 8 0, flag_of h, Some (Errorf ''invalid trace id''))"
    by blast
  then show ?thesis using False by auto
next
  case tok: True
  from decode_ids_all_hex [OF assms tok] obtain tid where
    t: "id_loop h 3 16 (Errorf ''invalid trace id'') 0 (replicate 16 0) 0 =
          Some (tid, sum_list (map uint tid), None)"
    and lt: "length tid = 16" and tx: "take 32 (drop 3 h) = hexs tid" by blast
  have zt: "(take 32 (drop 3 h) = replicate 32 (CHR ''0'')) = (tid = replicate 16 0)"
    using zero_text_iff [OF lt] tx by simp
  have st: "(sum_list (map uint tid) = 0) = (tid = replicate 16 0)"
    using sum_uint_zero_iff [of tid] lt by simp
  show ?thesis
  proof (cases "tid = replicate 16 0")
    case True
    then have "decode_ids h =
        Some (0, tid, replicate 8 0, flag_of h, Some (Errorf ''invalid trace id''))"
      using st unfolding decode_ids_def t by simp
    then show ?thesis using True zt by auto
  next
    case tn: False
    show ?thesis
    proof (cases "\<forall>k<16. h ! (36 + k) \<in> set hextable")
      case False
      then obtain k where k: "k < 16" "h ! (36 + k) \<notin> set hextable" by blast
      have nz: "take 32 (drop 3 h) \<noteq> replicate 32 (CHR ''0'')" using tn zt by simp
      from decode_ids_parent_bad [OF assms tok nz k] obtain tid' pid' where
        "decode_ids h = Some (0, tid', pid', flag_of h, Some (Errorf ''invalid parent id''))"
        by blast
      then show ?thesis using False tok nz by auto
    next
      case pok: True
      from decode_ids_parent_all_hex [OF assms pok] obtain pid where
        p: "id_loop h 36 8 (Errorf ''invalid parent id'') 0 (replicate 8 0) 0 =
              Some (pid, sum_list (map uint pid), None)"
        and lp: "length pid = 8" and px: "take 16 (drop 36 h) = hexs pid" by blast
      have zp: "(take 16 (drop 36 h) = replicate 16 (CHR ''0'')) = (pid = replicate 8 0)"
        using zero_text_iff [OF lp] px by simp
      note c = decode_ids_cases [OF t p lt lp]
      show ?thesis
      proof (cases "pid = replicate 8 0")
        case True
        then have "decode_ids h = Some (0, tid, pid, flag_of h, Some (Errorf ''invalid parent id''))"
          using c tn by simp
        then show ?thesis using True tn zt zp tok pok by auto
      next
        case False
        then have "decode_ids h = Some (0, tid, pid, flag_of h, None)"
          using c tn by simp
        then show ?thesis using False tn zt zp tok pok by auto
      qed
    qed
  qed
qed

section \<open>The framing checks\<close>

text \<open>
  C7. A header whose length is not 55 is refused with the error "invalid length",
  whatever it contains: the length test is the first statement of the function, and
  the four values returned with the error are the zero values they were declared with.
  That holds in particular for every header of 54 characters.
\<close>

theorem decode_invalid_length:
  "length header \<noteq> 55 \<Longrightarrow>
   DecodeTraceparent header =
     Some (0, replicate 16 0, replicate 8 0, 0, Some (Errorf ''invalid length''))"
  by (simp add: DecodeTraceparent_def)

theorem decode_invalid_length_witness:
  "length ''00-0102030405060708090a0b0c0d0e0f10-0102030405060708-0'' \<noteq> 55 \<and>
   DecodeTraceparent ''00-0102030405060708090a0b0c0d0e0f10-0102030405060708-0'' =
     Some (0, replicate 16 0, replicate 8 0, 0, Some (Errorf ''invalid length''))"
  using decode_invalid_length [of "''00-0102030405060708090a0b0c0d0e0f10-0102030405060708-0''"]
  by simp

text \<open>
  C8. A header of 55 characters with a character other than \<open>-\<close> at index 2, 35 or 52
  is refused with the error "invalid format", whatever the rest of it is.
\<close>

theorem decode_invalid_format:
  assumes "length header = 55"
    and "header ! 2 \<noteq> CHR ''-'' \<or> header ! 35 \<noteq> CHR ''-'' \<or> header ! 52 \<noteq> CHR ''-''"
  shows "DecodeTraceparent header =
           Some (0, replicate 16 0, replicate 8 0, 0, Some (Errorf ''invalid format''))"
  using assms(2) by (simp only: decode_unfold [OF assms(1)] if_True)

theorem decode_invalid_format_witness:
  "length ''00-0102030405060708090a0b0c0d0e0f10_0102030405060708-01'' = 55 \<and>
   ''00-0102030405060708090a0b0c0d0e0f10_0102030405060708-01'' ! 35 \<noteq> CHR ''-'' \<and>
   DecodeTraceparent ''00-0102030405060708090a0b0c0d0e0f10_0102030405060708-01'' =
     Some (0, replicate 16 0, replicate 8 0, 0, Some (Errorf ''invalid format''))"
  using decode_invalid_format [of "''00-0102030405060708090a0b0c0d0e0f10_0102030405060708-01''"]
  by simp

text \<open>
  C6. For a header of 55 characters with its three dashes in place: when the first two
  characters are not the text \<open>00\<close> the result is the error "invalid version" (a
  comparison of texts: \<open>0a\<close>, \<open>01\<close> or \<open>ff\<close> are refused like any other pair);
  when they are \<open>00\<close> and the last two characters are neither \<open>00\<close> nor \<open>01\<close> the
  result is the error "invalid flag". Nothing is assumed of the characters of the two
  ids, so both tests are decided before any of them is looked at.
\<close>

theorem decode_invalid_version_flag:
  assumes "length header = 55"
    and "header ! 2 = CHR ''-''" "header ! 35 = CHR ''-''" "header ! 52 = CHR ''-''"
  shows "(take 2 header \<noteq> ''00'' \<longrightarrow>
            DecodeTraceparent header =
              Some (0, replicate 16 0, replicate 8 0, 0, Some (Errorf ''invalid version''))) \<and>
         (take 2 header = ''00'' \<and> drop 53 header \<noteq> ''00'' \<and> drop 53 header \<noteq> ''01'' \<longrightarrow>
            DecodeTraceparent header =
              Some (0, replicate 16 0, replicate 8 0, 0, Some (Errorf ''invalid flag'')))"
  using assms(2-4) by (simp add: decode_unfold [OF assms(1)])

theorem decode_invalid_version_flag_witness:
  "DecodeTraceparent ''01-zz02030405060708090a0b0c0d0e0f10-0102030405060708-01'' =
     Some (0, replicate 16 0, replicate 8 0, 0, Some (Errorf ''invalid version'')) \<and>
   DecodeTraceparent ''00-zz02030405060708090a0b0c0d0e0f10-0102030405060708-02'' =
     Some (0, replicate 16 0, replicate 8 0, 0, Some (Errorf ''invalid flag''))"
  using decode_invalid_version_flag [of "''01-zz02030405060708090a0b0c0d0e0f10-0102030405060708-01''"]
    decode_invalid_version_flag [of "''00-zz02030405060708090a0b0c0d0e0f10-0102030405060708-02''"]
  by simp

text \<open>
  C10. The function returns on every input, of any length and content: no index and no
  slice bound is out of range (a panic is the value \<open>None\<close> of the model, and the
  reads of the model are those of the source: the bytes 2, 35 and 52, the slices
  \<open>[:2]\<close> and \<open>[53:]\<close>, and the bytes \<open>3 + 2i\<close>, \<open>4 + 2i\<close> for \<open>i < 16\<close> and
  \<open>36 + 2i\<close>, \<open>37 + 2i\<close> for \<open>i < 8\<close>). What it returns is the five results of
  its signature, the last of them the error or \<open>nil\<close>.
\<close>

theorem decode_total: "\<exists>r. DecodeTraceparent header = Some r"
proof (cases "length header = 55")
  case True
  then show ?thesis
    using decode_ids_total [OF True] by (auto simp add: decode_unfold [OF True])
next
  case False
  then show ?thesis by (simp add: DecodeTraceparent_def)
qed

theorem decode_total_witness:
  "(\<exists>r. DecodeTraceparent ''00-0102'' = Some r) \<and>
   (\<exists>r. DecodeTraceparent ''00-0102030405060708090a0b0c0d0e0f10-0102030405060708-01'' = Some r)"
  using decode_total [of "''00-0102''"]
    decode_total [of "''00-0102030405060708090a0b0c0d0e0f10-0102030405060708-01''"]
  by simp

section \<open>The encoder\<close>

text \<open>
  C5. For every version byte, trace id of 16 bytes, parent id of 8 bytes and flag byte,
  with no other condition on them, \<open>EncodeTraceparent\<close> returns a header (no write of
  \<open>hex.Encode\<close> is out of range: the result is \<open>Some\<close>); the header has 55
  characters, the dash at indices 2, 35 and 52, and each field in lower-case hexadecimal,
  two characters for a byte, in its slot: the version in \<open>[0, 2)\<close>, the trace id in
  \<open>[3, 35)\<close>, the parent id in \<open>[36, 52)\<close> and the flag in \<open>[53, 55)\<close>.
\<close>

theorem encode_total_layout:
  assumes "length tid = 16" "length pid = 8"
  shows "\<exists>header. EncodeTraceparent ver tid pid flg = Some header \<and>
           length header = 55 \<and>
           header ! 2 = CHR ''-'' \<and> header ! 35 = CHR ''-'' \<and> header ! 52 = CHR ''-'' \<and>
           take 2 header = spec_hex [ver] \<and>
           take 32 (drop 3 header) = spec_hex tid \<and>
           take 16 (drop 36 header) = spec_hex pid \<and>
           drop 53 header = spec_hex [flg]"
proof -
  let ?h = "hex_pair ver @ ''-'' @ hexs tid @ ''-'' @ hexs pid @ ''-'' @ hex_pair flg"
  have e: "EncodeTraceparent ver tid pid flg = Some ?h"
    using assms by (rule EncodeTraceparent_closed)
  have "length ?h = 55" using assms by simp
  moreover have "?h ! 2 = CHR ''-''" "?h ! 35 = CHR ''-''" "?h ! 52 = CHR ''-''"
    using assms by (simp_all add: nth_append)
  moreover have "take 2 ?h = spec_hex [ver]" "take 32 (drop 3 ?h) = spec_hex tid"
    "take 16 (drop 36 ?h) = spec_hex pid" "drop 53 ?h = spec_hex [flg]"
    using assms by (simp_all add: hexs_spec [symmetric] hexs_single)
  ultimately show ?thesis using e by blast
qed

theorem encode_total_layout_witness:
  "\<exists>header. EncodeTraceparent 0xAB [1, 2, 3, 4, 5, 6, 7, 8, 9, 10, 11, 12, 13, 14, 15, 16]
       [0, 0, 0, 0, 0, 0, 0, 0] 0xFF = Some header \<and>
     length header = 55 \<and>
     header ! 2 = CHR ''-'' \<and> header ! 35 = CHR ''-'' \<and> header ! 52 = CHR ''-'' \<and>
     take 2 header = spec_hex [0xAB] \<and>
     take 32 (drop 3 header) = spec_hex [1, 2, 3, 4, 5, 6, 7, 8, 9, 10, 11, 12, 13, 14, 15, 16] \<and>
     take 16 (drop 36 header) = spec_hex [0, 0, 0, 0, 0, 0, 0, 0] \<and>
     drop 53 header = spec_hex [0xFF]"
proof -
  have a: "length [1, 2, 3, 4, 5, 6, 7, 8, 9, 10, 11, 12, 13, 14, 15, 16 :: u8] = 16" by simp
  have b: "length [0, 0, 0, 0, 0, 0, 0, 0 :: u8] = 8" by simp
  show ?thesis by (rule encode_total_layout [OF a b])
qed

section \<open>Decoding what was encoded\<close>

text \<open>
  C1. For the version byte 0, a trace id of 16 bytes that are not all zero, a parent id
  of 8 bytes that are not all zero and a flag byte 0 or 1, \<open>EncodeTraceparent\<close>
  returns a header and \<open>DecodeTraceparent\<close> of that header returns the same four values
  and no error.
\<close>

theorem roundtrip_decode_encode:
  assumes "ver = 0" "length tid = 16" "tid \<noteq> replicate 16 0"
    "length pid = 8" "pid \<noteq> replicate 8 0" "flg = 0 \<or> flg = 1"
  shows "\<exists>header. EncodeTraceparent ver tid pid flg = Some header \<and>
           DecodeTraceparent header = Some (ver, tid, pid, flg, None)"
  using EncodeTraceparent_closed [OF assms(2,4), of ver flg]
    decode_closed_form [OF assms(2-6)] assms(1)
  by simp

theorem roundtrip_decode_encode_witness:
  "\<exists>header.
     EncodeTraceparent 0 [1, 2, 3, 4, 5, 6, 7, 8, 9, 10, 11, 12, 13, 14, 15, 16]
       [1, 2, 3, 4, 5, 6, 7, 8] 1 = Some header \<and>
     DecodeTraceparent header =
       Some (0, [1, 2, 3, 4, 5, 6, 7, 8, 9, 10, 11, 12, 13, 14, 15, 16],
             [1, 2, 3, 4, 5, 6, 7, 8], 1, None)"
proof -
  have a: "length [1, 2, 3, 4, 5, 6, 7, 8, 9, 10, 11, 12, 13, 14, 15, 16 :: u8] = 16" by simp
  have b: "[1, 2, 3, 4, 5, 6, 7, 8, 9, 10, 11, 12, 13, 14, 15, 16 :: u8] \<noteq> replicate 16 0"
    by (simp add: numeral_eq_Suc)
  have c: "length [1, 2, 3, 4, 5, 6, 7, 8 :: u8] = 8" by simp
  have d: "[1, 2, 3, 4, 5, 6, 7, 8 :: u8] \<noteq> replicate 8 0"
    by (simp add: numeral_eq_Suc)
  have e: "(1 :: u8) = 0 \<or> (1 :: u8) = 1" by simp
  show ?thesis by (rule roundtrip_decode_encode [OF refl a b c d e])
qed

text \<open>
  C9. Encoding is a left inverse of decoding on the headers that are accepted: when
  \<open>DecodeTraceparent\<close> returns four values and no error for a header, then
  \<open>EncodeTraceparent\<close> of these four values returns that very header, character for
  character.
\<close>

theorem encode_decode_inverse:
  assumes "DecodeTraceparent header = Some (ver, tid, pid, flg, None)"
  shows "EncodeTraceparent ver tid pid flg = Some header"
proof -
  have l: "length header = 55"
    using assms by (cases "length header = 55") (simp_all add: DecodeTraceparent_def)
  note u = decode_unfold [OF l]
  have d: "header ! 2 = CHR ''-''" "header ! 35 = CHR ''-''" "header ! 52 = CHR ''-''"
    and v: "take 2 header = ''00''"
    and f: "drop 53 header = ''00'' \<or> drop 53 header = ''01''"
    and i: "decode_ids header = Some (ver, tid, pid, flg, None)"
    using assms unfolding u by (auto split: if_splits)
  note s = decode_ids_success [OF l i]
  have ft: "take 32 (drop 3 header) = hexs tid" and fp: "take 16 (drop 36 header) = hexs pid"
    using s(3-6) by (simp_all add: field_holds_def)
  have hv: "hex_pair ver = take 2 header" using s(1) v by (simp add: hex_pair_0)
  have hf: "hex_pair flg = drop 53 header"
    using s(2) f by (auto simp add: flag_of_def hex_pair_0 hex_pair_1)
  have "EncodeTraceparent ver tid pid flg =
          Some (hex_pair ver @ ''-'' @ hexs tid @ ''-'' @ hexs pid @ ''-'' @ hex_pair flg)"
    using s(3,4) by (rule EncodeTraceparent_closed)
  also have "hex_pair ver @ ''-'' @ hexs tid @ ''-'' @ hexs pid @ ''-'' @ hex_pair flg = header"
    using header_split [OF l] unfolding d ft fp hv [symmetric] hf [symmetric] by simp
  finally show ?thesis .
qed

theorem encode_decode_inverse_witness:
  "DecodeTraceparent ''00-0102030405060708090a0b0c0d0e0f10-0102030405060708-01'' =
     Some (0, [1, 2, 3, 4, 5, 6, 7, 8, 9, 10, 11, 12, 13, 14, 15, 16],
           [1, 2, 3, 4, 5, 6, 7, 8], 1, None) \<and>
   EncodeTraceparent 0 [1, 2, 3, 4, 5, 6, 7, 8, 9, 10, 11, 12, 13, 14, 15, 16]
       [1, 2, 3, 4, 5, 6, 7, 8] 1 =
     Some ''00-0102030405060708090a0b0c0d0e0f10-0102030405060708-01''"
proof -
  have d: "DecodeTraceparent ''00-0102030405060708090a0b0c0d0e0f10-0102030405060708-01'' =
     Some (0, [1, 2, 3, 4, 5, 6, 7, 8, 9, 10, 11, 12, 13, 14, 15, 16],
           [1, 2, 3, 4, 5, 6, 7, 8], 1, None)"
    by code_simp
  from d encode_decode_inverse [OF d] show ?thesis by (rule conjI)
qed

section \<open>The characters of the two ids\<close>

text \<open>
  C2, as the code has it. At a position of the trace id or of the parent id, the
  characters that the decoder accepts are those of the canonical lower-case alphabet
  \<open>0\<close> to \<open>9\<close> and \<open>a\<close> to \<open>f\<close>, and no other of the 256 byte values (a
  \<open>char\<close> is a byte): a byte passes the nibble test exactly when \<open>c - '0'\<close> is at most
  9 or \<open>c - 'W'\<close> is between 10 and 15 in 8-bit arithmetic, and that holds exactly for
  the sixteen characters of the alphabet, so not for \<open>A\<close> to \<open>F\<close>. For a header that
  has passed the length, dash, version and flag tests the outcome of the decoder is fixed
  by its 48 id characters: it returns no error exactly when all of them are in the
  alphabet and neither id is all \<open>0\<close>; it returns "invalid trace id" exactly when a
  character of the trace id is outside the alphabet or the trace id is all \<open>0\<close>; it
  returns "invalid parent id" exactly when the trace id is made of characters of the
  alphabet and is not all \<open>0\<close>, and a character of the parent id is outside the alphabet
  or the parent id is all \<open>0\<close>. So a rejected character of the trace id always gives
  "invalid trace id", and a rejected character of the parent id gives "invalid parent id"
  when the trace id has passed: the trace id is tested first.
\<close>

theorem hex_alphabet_exact:
  assumes "length header = 55"
    and "header ! 2 = CHR ''-''" "header ! 35 = CHR ''-''" "header ! 52 = CHR ''-''"
    and "take 2 header = ''00''"
    and "drop 53 header = ''00'' \<or> drop 53 header = ''01''"
  shows "((hex_nibble (of_char c) \<noteq> None) = (c \<in> set lower_hex_alphabet)) \<and>
         ((hex_nibble b \<noteq> None) =
            (b - of_char (CHR ''0'') \<le> 9 \<or>
             (10 \<le> b - of_char (CHR ''W'') \<and> b - of_char (CHR ''W'') \<le> 15))) \<and>
         (\<exists>tid pid flg err.
            DecodeTraceparent header = Some (0, tid, pid, flg, err) \<and>
            ((err = Some (Errorf ''invalid trace id'')) =
               ((\<exists>k<32. header ! (3 + k) \<notin> set lower_hex_alphabet) \<or>
                take 32 (drop 3 header) = replicate 32 (CHR ''0''))) \<and>
            ((err = Some (Errorf ''invalid parent id'')) =
               ((\<forall>k<32. header ! (3 + k) \<in> set lower_hex_alphabet) \<and>
                take 32 (drop 3 header) \<noteq> replicate 32 (CHR ''0'') \<and>
                ((\<exists>k<16. header ! (36 + k) \<notin> set lower_hex_alphabet) \<or>
                 take 16 (drop 36 header) = replicate 16 (CHR ''0'')))) \<and>
            ((err = None) =
               ((\<forall>k<32. header ! (3 + k) \<in> set lower_hex_alphabet) \<and>
                (\<forall>k<16. header ! (36 + k) \<in> set lower_hex_alphabet) \<and>
                take 32 (drop 3 header) \<noteq> replicate 32 (CHR ''0'') \<and>
                take 16 (drop 36 header) \<noteq> replicate 16 (CHR ''0''))))"
proof -
  have u: "DecodeTraceparent header = decode_ids header"
    using assms(2-6) by (simp only: decode_unfold [OF assms(1)]) auto
  have 1: "(hex_nibble (of_char c) \<noteq> None) = (c \<in> set lower_hex_alphabet)"
    unfolding alphabet_hextable by (rule hex_nibble_accepts_iff)
  have 2: "(hex_nibble b \<noteq> None) =
            (b - of_char (CHR ''0'') \<le> 9 \<or>
             (10 \<le> b - of_char (CHR ''W'') \<and> b - of_char (CHR ''W'') \<le> 15))"
    by (rule hex_nibble_arith)
  have 3: "\<exists>tid pid flg err.
            DecodeTraceparent header = Some (0, tid, pid, flg, err) \<and>
            ((err = Some (Errorf ''invalid trace id'')) =
               ((\<exists>k<32. header ! (3 + k) \<notin> set lower_hex_alphabet) \<or>
                take 32 (drop 3 header) = replicate 32 (CHR ''0''))) \<and>
            ((err = Some (Errorf ''invalid parent id'')) =
               ((\<forall>k<32. header ! (3 + k) \<in> set lower_hex_alphabet) \<and>
                take 32 (drop 3 header) \<noteq> replicate 32 (CHR ''0'') \<and>
                ((\<exists>k<16. header ! (36 + k) \<notin> set lower_hex_alphabet) \<or>
                 take 16 (drop 36 header) = replicate 16 (CHR ''0'')))) \<and>
            ((err = None) =
               ((\<forall>k<32. header ! (3 + k) \<in> set lower_hex_alphabet) \<and>
                (\<forall>k<16. header ! (36 + k) \<in> set lower_hex_alphabet) \<and>
                take 32 (drop 3 header) \<noteq> replicate 32 (CHR ''0'') \<and>
                take 16 (drop 36 header) \<noteq> replicate 16 (CHR ''0'')))"
    unfolding u alphabet_hextable by (rule decode_ids_outcome [OF assms(1)])
  from 1 2 3 show ?thesis by (intro conjI)
qed

theorem hex_alphabet_exact_witness:
  "hex_nibble (of_char (CHR ''A'')) = None \<and>
   (\<exists>tid pid flg.
      DecodeTraceparent ''00-0102030405060708090A0b0c0d0e0f10-0102030405060708-01'' =
        Some (0, tid, pid, flg, Some (Errorf ''invalid trace id''))) \<and>
   (\<exists>tid pid flg.
      DecodeTraceparent ''00-0102030405060708090a0b0c0d0e0f10-01020304050607G8-01'' =
        Some (0, tid, pid, flg, Some (Errorf ''invalid parent id''))) \<and>
   (\<exists>tid pid flg.
      DecodeTraceparent ''00-0123456789abcdef0123456789abcdef-fedcba9876543210-00'' =
        Some (0, tid, pid, flg, None))"
proof -
  let ?h = "''00-0102030405060708090A0b0c0d0e0f10-0102030405060708-01''"
  let ?g = "''00-0102030405060708090a0b0c0d0e0f10-01020304050607G8-01''"
  let ?a = "''00-0123456789abcdef0123456789abcdef-fedcba9876543210-00''"
  have f: "length ?h = 55" "?h ! 2 = CHR ''-''" "?h ! 35 = CHR ''-''" "?h ! 52 = CHR ''-''"
    "take 2 ?h = ''00''" "drop 53 ?h = ''00'' \<or> drop 53 ?h = ''01''"
    by simp_all
  have g: "length ?g = 55" "?g ! 2 = CHR ''-''" "?g ! 35 = CHR ''-''" "?g ! 52 = CHR ''-''"
    "take 2 ?g = ''00''" "drop 53 ?g = ''00'' \<or> drop 53 ?g = ''01''"
    by simp_all
  have a: "length ?a = 55" "?a ! 2 = CHR ''-''" "?a ! 35 = CHR ''-''" "?a ! 52 = CHR ''-''"
    "take 2 ?a = ''00''" "drop 53 ?a = ''00'' \<or> drop 53 ?a = ''01''"
    by simp_all
  have n: "CHR ''A'' \<notin> set lower_hex_alphabet" by (simp add: lower_hex_alphabet_def)
  have hk: "\<exists>k<32. ?h ! (3 + k) \<notin> set lower_hex_alphabet"
    by (rule exI [of _ 19]) (simp add: lower_hex_alphabet_def)
  have gt: "\<forall>k<32. ?g ! (3 + k) \<in> set lower_hex_alphabet"
    unfolding lower_hex_alphabet_def by code_simp
  have gz: "take 32 (drop 3 ?g) \<noteq> replicate 32 (CHR ''0'')" by code_simp
  have gp: "\<exists>k<16. ?g ! (36 + k) \<notin> set lower_hex_alphabet"
    by (rule exI [of _ 14]) (simp add: lower_hex_alphabet_def)
  have at: "\<forall>k<32. ?a ! (3 + k) \<in> set lower_hex_alphabet"
    unfolding lower_hex_alphabet_def by code_simp
  have ap: "\<forall>k<16. ?a ! (36 + k) \<in> set lower_hex_alphabet"
    unfolding lower_hex_alphabet_def by code_simp
  have az: "take 32 (drop 3 ?a) \<noteq> replicate 32 (CHR ''0'')"
    "take 16 (drop 36 ?a) \<noteq> replicate 16 (CHR ''0'')" by code_simp+
  note th = hex_alphabet_exact [OF f, of "CHR ''A''" 0]
  note tg = hex_alphabet_exact [OF g, of "CHR ''A''" 0, THEN conjunct2, THEN conjunct2]
  note ta = hex_alphabet_exact [OF a, of "CHR ''A''" 0, THEN conjunct2, THEN conjunct2]
  have 1: "hex_nibble (of_char (CHR ''A'')) = None"
    using th [THEN conjunct1] n by simp
  have 2: "\<exists>tid pid flg. DecodeTraceparent ?h =
        Some (0, tid, pid, flg, Some (Errorf ''invalid trace id''))"
    using th [THEN conjunct2, THEN conjunct2] hk by blast
  have 3: "\<exists>tid pid flg. DecodeTraceparent ?g =
        Some (0, tid, pid, flg, Some (Errorf ''invalid parent id''))"
    using tg gt gz gp by blast
  have 4: "\<exists>tid pid flg. DecodeTraceparent ?a = Some (0, tid, pid, flg, None)"
    using ta at ap az by blast
  from 1 2 3 4 show ?thesis by (intro conjI)
qed

text \<open>
  The claim as it was stated fails for a rejected character of the parent id in a header
  whose trace id is all \<open>0\<close>: the character \<open>G\<close> at index 50 is no digit, and the
  error is "invalid trace id", returned before the parent id is read.
\<close>

theorem parent_char_counterexample:
  "DecodeTraceparent ''00-00000000000000000000000000000000-01020304050607G8-01'' =
     Some (0, replicate 16 0, replicate 8 0, 1, Some (Errorf ''invalid trace id'')) \<and>
   ''00-00000000000000000000000000000000-01020304050607G8-01'' ! 50 = CHR ''G'' \<and>
   hex_nibble (of_char (CHR ''G'')) = None"
  by code_simp

section \<open>The all-zero ids\<close>




section \<open>What is returned with an error\<close>

text \<open>
  C3, as the code has it. The function has named results and every failure path returns
  them as they stand, so the values returned with an error are those assigned so far.
  Whenever an error is returned it is one of the six errors of the function, the version
  is zero, the two ids have their 16 and 8 bytes and the flag is 0 or 1. With the errors
  "invalid length", "invalid format", "invalid version" and "invalid flag" all four values
  are the zero values. With the two later errors the flag is the decoded one: 0 for the
  text \<open>00\<close>, 1 for \<open>01\<close>. With "invalid trace id" the parent id is all zero and the
  trace id holds the bytes decoded before the failure: for the first pair \<open>j\<close> with a
  character that is no digit, the bytes of the \<open>j\<close> pairs before it and then zeros
  (\<open>j = 16\<close> when all pairs are digits and the id is all zero). With "invalid parent id"
  the trace id is the decoded one, not all zero, and the parent id holds the bytes
  decoded before the failure in the same way. The function is pure: it writes to nothing
  but its results.
\<close>

theorem decode_error_values:
  assumes "DecodeTraceparent header = Some (ver, tid, pid, flg, Some e)"
  shows "ver = 0 \<and> length tid = 16 \<and> length pid = 8 \<and> (flg = 0 \<or> flg = 1) \<and>
         e \<in> {Errorf ''invalid length'', Errorf ''invalid format'', Errorf ''invalid version'',
              Errorf ''invalid flag'', Errorf ''invalid trace id'', Errorf ''invalid parent id''} \<and>
         (e \<in> {Errorf ''invalid length'', Errorf ''invalid format'', Errorf ''invalid version'',
               Errorf ''invalid flag''} \<longrightarrow>
            tid = replicate 16 0 \<and> pid = replicate 8 0 \<and> flg = 0) \<and>
         (e = Errorf ''invalid trace id'' \<or> e = Errorf ''invalid parent id'' \<longrightarrow>
            (drop 53 header = ''00'' \<and> flg = 0) \<or> (drop 53 header = ''01'' \<and> flg = 1)) \<and>
         (e = Errorf ''invalid trace id'' \<longrightarrow>
            pid = replicate 8 0 \<and>
            (\<exists>j\<le>16. take (2 * j) (drop 3 header) = spec_hex (take j tid) \<and>
                    drop j tid = replicate (16 - j) 0 \<and>
                    (j < 16 \<longrightarrow> header ! (3 + 2 * j) \<notin> set lower_hex_alphabet \<or>
                                header ! (3 + 2 * j + 1) \<notin> set lower_hex_alphabet) \<and>
                    (j = 16 \<longrightarrow> tid = replicate 16 0))) \<and>
         (e = Errorf ''invalid parent id'' \<longrightarrow>
            take 32 (drop 3 header) = spec_hex tid \<and> tid \<noteq> replicate 16 0 \<and>
            (\<exists>j\<le>8. take (2 * j) (drop 36 header) = spec_hex (take j pid) \<and>
                   drop j pid = replicate (8 - j) 0 \<and>
                   (j < 8 \<longrightarrow> header ! (36 + 2 * j) \<notin> set lower_hex_alphabet \<or>
                              header ! (36 + 2 * j + 1) \<notin> set lower_hex_alphabet) \<and>
                   (j = 8 \<longrightarrow> pid = replicate 8 0)))"
proof (cases "length header = 55")
  case False
  then show ?thesis using assms by (auto simp add: DecodeTraceparent_def)
next
  case True
  note u = decode_unfold [OF True]
  show ?thesis
  proof (cases "header ! 2 = CHR ''-'' \<and> header ! 35 = CHR ''-'' \<and> header ! 52 = CHR ''-'' \<and>
      take 2 header = ''00'' \<and> (drop 53 header = ''00'' \<or> drop 53 header = ''01'')")
    case False
    then show ?thesis using assms unfolding u by (auto split: if_splits)
  next
    case f: True
    then have d: "DecodeTraceparent header = decode_ids header" unfolding u by auto
    note s = decode_ids_error [OF True assms [unfolded d]]
    note v = decode_ids_error_values [OF True assms [unfolded d], unfolded decoded_prefix_def]
    have g: "(drop 53 header = ''00'' \<and> flg = 0) \<or> (drop 53 header = ''01'' \<and> flg = 1)"
      using f s(2) by (auto simp add: flag_of_def)
    have n: "Errorf ''invalid trace id'' \<noteq> Errorf ''invalid parent id''" by simp
    have k: "e = Errorf ''invalid trace id'' \<or> e = Errorf ''invalid parent id''"
      using s(5) by blast
    have fl: "flg = 0 \<or> flg = 1" using g by blast
    have early: "e \<notin> {Errorf ''invalid length'', Errorf ''invalid format'',
        Errorf ''invalid version'', Errorf ''invalid flag''}"
      using k by auto
    have six: "e \<in> {Errorf ''invalid length'', Errorf ''invalid format'', Errorf ''invalid version'',
              Errorf ''invalid flag'', Errorf ''invalid trace id'', Errorf ''invalid parent id''}"
      using k by auto
    have vt: "e = Errorf ''invalid trace id'' \<longrightarrow>
            pid = replicate 8 0 \<and>
            (\<exists>j\<le>16. take (2 * j) (drop 3 header) = spec_hex (take j tid) \<and>
                    drop j tid = replicate (16 - j) 0 \<and>
                    (j < 16 \<longrightarrow> header ! (3 + 2 * j) \<notin> set lower_hex_alphabet \<or>
                                header ! (3 + 2 * j + 1) \<notin> set lower_hex_alphabet) \<and>
                    (j = 16 \<longrightarrow> tid = replicate 16 0))"
      using v n by blast
    have vp: "e = Errorf ''invalid parent id'' \<longrightarrow>
            take 32 (drop 3 header) = spec_hex tid \<and> tid \<noteq> replicate 16 0 \<and>
            (\<exists>j\<le>8. take (2 * j) (drop 36 header) = spec_hex (take j pid) \<and>
                   drop j pid = replicate (8 - j) 0 \<and>
                   (j < 8 \<longrightarrow> header ! (36 + 2 * j) \<notin> set lower_hex_alphabet \<or>
                              header ! (36 + 2 * j + 1) \<notin> set lower_hex_alphabet) \<and>
                   (j = 8 \<longrightarrow> pid = replicate 8 0))"
      using v n by blast
    from s(1,3,4) fl six early g vt vp show ?thesis by blast
  qed
qed

theorem decode_error_values_witness:
  "DecodeTraceparent ''00-ab02030405060708090a0b0c0d0eXf10-0102030405060708-01'' =
     Some (0, [171, 2, 3, 4, 5, 6, 7, 8, 9, 10, 11, 12, 13, 14, 0, 0], replicate 8 0, 1,
           Some (Errorf ''invalid trace id'')) \<and>
   length [171, 2, 3, 4, 5, 6, 7, 8, 9, 10, 11, 12, 13, 14, 0, 0 :: u8] = 16 \<and>
   length (replicate 8 (0 :: u8)) = 8"
proof -
  have d: "DecodeTraceparent ''00-ab02030405060708090a0b0c0d0eXf10-0102030405060708-01'' =
     Some (0, [171, 2, 3, 4, 5, 6, 7, 8, 9, 10, 11, 12, 13, 14, 0, 0], replicate 8 0, 1,
           Some (Errorf ''invalid trace id''))"
    by code_simp
  note v = decode_error_values [OF d]
  from d v [THEN conjunct2, THEN conjunct1] v [THEN conjunct2, THEN conjunct2, THEN conjunct1]
  show ?thesis by (intro conjI)
qed

text \<open>
  The claim as it was stated fails on a header with a valid trace id and an all-zero
  parent id: the error "invalid parent id" comes with the sixteen decoded bytes of the
  trace id and the flag 1.
\<close>

theorem partial_values_counterexample:
  "DecodeTraceparent ''00-0102030405060708090a0b0c0d0e0f10-0000000000000000-01'' =
     Some (0, [1, 2, 3, 4, 5, 6, 7, 8, 9, 10, 11, 12, 13, 14, 15, 16], replicate 8 0, 1,
           Some (Errorf ''invalid parent id''))"
  by code_simp

end
